theory Spec2Isabelle
  imports Main "HOL-Library.Word" "HOL-Library.Signed_Division"
begin

unbundle bit_operations_syntax

section \<open>Syzygy tablebase probing (src/syzygy/tbprobe.cpp): the model\<close>

subsection \<open>TBFile::map\<close>

text \<open>
  Pointers are addresses (\<open>nat\<close>); \<open>nullptr\<close> is address 0 and \<open>MAP_FAILED\<close> is
  \<open>(void*)-1\<close>. The operating system's answers to \<open>::open\<close>, \<open>fstat\<close> and \<open>mmap\<close>
  are the fields of \<open>file_env\<close>; the bytes of the file are \<open>contents\<close>. The POSIX branch
  of the function is the one modelled.
\<close>

definition nullptr :: nat where
  "nullptr = 0"

definition MAP_FAILED :: nat where
  "MAP_FAILED = 2 ^ 64 - 1"

record file_env =
  open_fd :: int
  st_size :: int
  mmap_ret :: nat
  contents :: "8 word list"

record map_out =
  baseAddress :: nat
  mapping :: int
  unmapped :: "(nat \<times> int) list"

datatype exit_msg = Corrupt_tablebase_file | Could_not_mmap | TB_hash_table_size_too_low

text \<open>\<open>memcmp(data, magic, 4)\<close> is nonzero iff the first four bytes differ.\<close>

definition memcmp4 :: "8 word list \<Rightarrow> 8 word list \<Rightarrow> bool" where
  "memcmp4 dat magic = (take 4 dat \<noteq> take 4 magic)"

text \<open>
  \<open>TBFile::map(baseAddress, mapping, magic)\<close>: \<open>Inl\<close> is \<open>exit(EXIT_FAILURE)\<close> after the
  message; \<open>Inr (p, s)\<close> is the returned pointer with the caller's \<open>*baseAddress\<close> and
  \<open>*mapping\<close> and the list of \<open>munmap\<close> calls made.
\<close>

definition TBFile_map :: "file_env \<Rightarrow> map_out \<Rightarrow> 8 word list \<Rightarrow> exit_msg + (nat \<times> map_out)" where
  "TBFile_map env s magic =
     (if open_fd env = -1 then Inr (nullptr, s\<lparr>baseAddress := nullptr\<rparr>)
      else if st_size env smod 64 \<noteq> 16 then Inl Corrupt_tablebase_file
      else
        let s1 = s\<lparr>mapping := st_size env, baseAddress := mmap_ret env\<rparr> in
        if baseAddress s1 = MAP_FAILED then Inl Could_not_mmap
        else
          let dat = baseAddress s1 in
          if memcmp4 (contents env) magic
          then Inr (nullptr, s1\<lparr>unmapped := unmapped s1 @ [(baseAddress s1, mapping s1)],
                                  baseAddress := nullptr\<rparr>)
          else Inr (dat + 4, s1))"

definition env_mmap_fails :: file_env where
  "env_mmap_fails = \<lparr>open_fd = 3, st_size = 80, mmap_ret = MAP_FAILED,
     contents = [0xD7, 0x66, 0x0C, 0xA5] @ replicate 76 0\<rparr>"

definition env_good :: file_env where
  "env_good = \<lparr>open_fd = 3, st_size = 80, mmap_ret = 4096,
     contents = [0xD7, 0x66, 0x0C, 0xA5] @ replicate 76 0\<rparr>"

definition out0 :: map_out where
  "out0 = \<lparr>baseAddress = nullptr, mapping = 0, unmapped = []\<rparr>"

definition Magic_chess_wdl :: "8 word list" where
  "Magic_chess_wdl = [0x71, 0xE8, 0x23, 0x5D]"

definition Magic_chess_dtz :: "8 word list" where
  "Magic_chess_dtz = [0xD7, 0x66, 0x0C, 0xA5]"

subsection \<open>Scores, flags and table records\<close>

text \<open>
  \<open>enum WDLScore { WDLLoss = -2, WDLBlessedLoss = -1, WDLDraw = 0, WDLCursedWin = 1,
  WDLWin = 2 }\<close>; \<open>wdl_int\<close> is the enumerator's integer value, by which the code
  compares, negates and indexes.
\<close>

datatype WDLScore = WDLLoss | WDLBlessedLoss | WDLDraw | WDLCursedWin | WDLWin

fun wdl_int :: "WDLScore \<Rightarrow> int" where
  "wdl_int WDLLoss = -2"
| "wdl_int WDLBlessedLoss = -1"
| "wdl_int WDLDraw = 0"
| "wdl_int WDLCursedWin = 1"
| "wdl_int WDLWin = 2"

text \<open>\<open>enum TBFlag { STM = 1, Mapped = 2, WinPlies = 4, LossPlies = 8, Wide = 16, SingleValue = 128 }\<close>\<close>

definition STM :: "8 word" where "STM = 1"
definition Mapped :: "8 word" where "Mapped = 2"
definition WinPlies :: "8 word" where "WinPlies = 4"
definition LossPlies :: "8 word" where "LossPlies = 8"
definition Wide :: "8 word" where "Wide = 16"
definition SingleValue :: "8 word" where "SingleValue = 128"

datatype TBType = WDL | DTZ

text \<open>
  \<open>struct PairsData\<close>. The pointers into the mapped file (\<open>lowestSym\<close>, \<open>btree\<close>,
  \<open>blockLength\<close>, \<open>sparseIndex\<close>, \<open>data\<close>) are the arrays they point to; a read past the
  end of an array is a fault (\<open>None\<close>). \<open>lowestSym\<close>, \<open>blockLength\<close> and \<open>sparseIndex\<close>
  hold the values that \<open>number<T, LittleEndian>\<close> reads; \<open>blockLengthSize\<close> and
  \<open>sparseIndexSize\<close> are the lengths of their lists.
\<close>

record PairsData =
  flags :: "8 word"
  maxSymLen :: "8 word"
  minSymLen :: "8 word"
  blocksNum :: "32 word"
  sizeofBlock :: nat
  span :: nat
  lowestSym :: "16 word list"
  btree :: "(8 word \<times> 8 word \<times> 8 word) list"
  blockLength :: "16 word list"
  sparseIndex :: "(32 word \<times> 16 word) list"
  data :: "8 word list"
  base64 :: "64 word list"
  symlen :: "8 word list"
  pieces :: "nat list"
  groupIdx :: "64 word list"
  groupLen :: "int list"
  map_idx :: "16 word list"

subsection \<open>decompress_pairs\<close>

definition nth_opt :: "'a list \<Rightarrow> nat \<Rightarrow> 'a option" where
  "nth_opt xs i = (if i < length xs then Some (xs ! i) else None)"

text \<open>C++ \<open>int\<close>: the value of a 32-bit two's complement integer.\<close>

definition int32 :: "int \<Rightarrow> int" where
  "int32 x = sint (word_of_int x :: 32 word)"

text \<open>\<open>number<T, BigEndian>(ptr)\<close> over \<open>n\<close> bytes at byte offset \<open>p\<close>.\<close>

definition be_nat :: "8 word list \<Rightarrow> nat" where
  "be_nat bs = foldl (\<lambda>a b. a * 256 + unat b) 0 bs"

definition read_be :: "nat \<Rightarrow> 8 word list \<Rightarrow> nat \<Rightarrow> nat option" where
  "read_be n dat p = (if p + n \<le> length dat then Some (be_nat (take n (drop p dat))) else None)"

text \<open>\<open>LR::get<Left>\<close> and \<open>LR::get<Right>\<close>: two 12-bit symbols packed in three bytes.\<close>

definition LR_left :: "8 word \<times> 8 word \<times> 8 word \<Rightarrow> 16 word" where
  "LR_left lr = (case lr of (lr0, lr1, lr2) \<Rightarrow> push_bit 8 (ucast (lr1 AND 0xF)) OR ucast lr0)"

definition LR_right :: "8 word \<times> 8 word \<times> 8 word \<Rightarrow> 16 word" where
  "LR_right lr = (case lr of (lr0, lr1, lr2) \<Rightarrow> push_bit 4 (ucast lr2) OR ucast (drop_bit 4 lr1))"

text \<open>
  \<open>while (offset < 0) offset += d->blockLength[--block] + 1;\<close>
  At \<open>block = 0\<close> the unsigned decrement wraps to \<open>0xFFFFFFFF\<close>, outside
  \<open>blockLength[]\<close> (whose size is a \<open>uint32_t\<close>): a fault.
\<close>

function walk_back :: "16 word list \<Rightarrow> nat \<Rightarrow> int \<Rightarrow> (nat \<times> int) option" where
  "walk_back bl block offset =
     (if offset < 0 then
        (if block = 0 \<or> length bl < block then None
         else walk_back bl (block - 1) (int32 (offset + (uint (bl ! (block - 1)) + 1))))
      else Some (block, offset))"
  by pat_completeness auto
termination
  by (relation "measure (\<lambda>(bl, block, offset). block)") auto

declare walk_back.simps [simp del]

text \<open>\<open>while (offset > d->blockLength[block]) offset -= d->blockLength[block++] + 1;\<close>\<close>

function walk_fwd :: "16 word list \<Rightarrow> nat \<Rightarrow> int \<Rightarrow> (nat \<times> int) option" where
  "walk_fwd bl block offset =
     (if block < length bl then
        (if offset > uint (bl ! block)
         then walk_fwd bl (block + 1) (int32 (offset - (uint (bl ! block) + 1)))
         else Some (block, offset))
      else None)"
  by pat_completeness auto
termination
  by (relation "measure (\<lambda>(bl, block, offset). length bl - block)") auto

declare walk_fwd.simps [simp del]

text \<open>
  The block location of \<open>decompress_pairs\<close>: \<open>k\<close>, the sparse entry, \<open>diff\<close>, and the
  two loops. \<open>k\<close> is truncated to \<open>uint32_t\<close> and \<open>diff\<close> to \<open>int\<close> as in the source.
\<close>

definition locate_block :: "PairsData \<Rightarrow> nat \<Rightarrow> (nat \<times> int) option" where
  "locate_block d idx =
     (if span d = 0 then None
      else
        let k = (idx div span d) mod 2 ^ 32 in
        case nth_opt (sparseIndex d) k of
          None \<Rightarrow> None
        | Some (blk, off) \<Rightarrow>
           (let block = unat blk;
                offset = uint off;
                diff = int32 (int (idx mod span d) - int (span d div 2));
                offset = int32 (offset + diff)
            in (case walk_back (blockLength d) block offset of
                  None \<Rightarrow> None
                | Some (block, offset) \<Rightarrow> walk_fwd (blockLength d) block offset)))"

text \<open>\<open>while (buf64 < d->base64[len]) ++len;\<close>\<close>

function find_len :: "64 word list \<Rightarrow> 64 word \<Rightarrow> nat \<Rightarrow> nat option" where
  "find_len b64 buf64 len =
     (if len < length b64 then
        (if buf64 < b64 ! len then find_len b64 buf64 (len + 1) else Some len)
      else None)"
  by pat_completeness auto
termination
  by (relation "measure (\<lambda>(b64, buf64, len). length b64 - len)") auto

declare find_len.simps [simp del]

text \<open>
  The \<open>while (true)\<close> loop over the Huffman symbols of the block. A shift by a negative
  amount or by 64 or more is undefined in the source and a fault here.
\<close>

function decode_syms :: "PairsData \<Rightarrow> 64 word \<Rightarrow> int \<Rightarrow> nat \<Rightarrow> int \<Rightarrow> (16 word \<times> int) option" where
  "decode_syms d buf64 buf64Size ptr offset =
     (case find_len (base64 d) buf64 0 of
        None \<Rightarrow> None
      | Some len \<Rightarrow>
         (let sh = 64 - int len - uint (minSymLen d) in
          if sh < 0 \<or> 64 \<le> sh then None
          else
           (case nth_opt (lowestSym d) len of
              None \<Rightarrow> None
            | Some low \<Rightarrow>
               (let symb = (ucast (drop_bit (nat sh) (buf64 - base64 d ! len)) :: 16 word) + low in
                case nth_opt (symlen d) (unat symb) of
                  None \<Rightarrow> None
                | Some sl \<Rightarrow>
                   (if offset < uint sl + 1 then Some (symb, offset)
                    else
                     (let offset' = offset - (uint sl + 1);
                          len' = int len + uint (minSymLen d)
                      in if 64 \<le> len' then None
                         else
                          (let buf' = push_bit (nat len') buf64;
                               size' = buf64Size - len'
                           in if size' \<le> 32 then
                                (case read_be 4 (data d) ptr of
                                   None \<Rightarrow> None
                                 | Some w \<Rightarrow>
                                     decode_syms d
                                       (buf' OR push_bit (nat (64 - (size' + 32))) (word_of_nat w))
                                       (size' + 32) (ptr + 4) offset')
                              else decode_syms d buf' size' ptr offset')))))))"
  by pat_completeness auto
termination
  by (relation "measure (\<lambda>(d, buf64, buf64Size, ptr, offset). nat offset)")
     (auto simp: not_le intro: order.strict_trans1 [OF uint_ge_0]
        order.strict_trans2 [OF _ uint_ge_0])

declare decode_syms.simps [simp del]

text \<open>
  \<open>while (d->symlen[sym]) { ... }\<close>: the walk down the recursive-pairing tree. On a
  cyclic \<open>btree\<close> the source does not return; here the value is \<open>None\<close>.
\<close>

partial_function (option) expand_sym :: "PairsData \<Rightarrow> 16 word \<Rightarrow> int \<Rightarrow> (16 word \<times> int) option" where
  "expand_sym d symb offset =
     (case nth_opt (symlen d) (unat symb) of
        None \<Rightarrow> None
      | Some sl \<Rightarrow>
         (if sl \<noteq> 0 then
            (case nth_opt (btree d) (unat symb) of
               None \<Rightarrow> None
             | Some lr \<Rightarrow>
                (let left = LR_left lr in
                 case nth_opt (symlen d) (unat left) of
                   None \<Rightarrow> None
                 | Some sll \<Rightarrow>
                    (if offset < uint sll + 1 then expand_sym d left offset
                     else expand_sym d (LR_right lr) (offset - (uint sll + 1)))))
          else Some (symb, offset)))"

definition decompress_pairs :: "PairsData \<Rightarrow> nat \<Rightarrow> int option" where
  "decompress_pairs d idx =
     (if flags d AND SingleValue \<noteq> 0 then Some (uint (minSymLen d))
      else
       (case locate_block d idx of
          None \<Rightarrow> None
        | Some (block, offset) \<Rightarrow>
           (let ptr = block * sizeofBlock d in
            case read_be 8 (data d) ptr of
              None \<Rightarrow> None
            | Some w \<Rightarrow>
               (case decode_syms d (word_of_nat w) 64 (ptr + 8) offset of
                  None \<Rightarrow> None
                | Some (symb, offset) \<Rightarrow>
                   (case expand_sym d symb offset of
                      None \<Rightarrow> None
                    | Some (symb, offset) \<Rightarrow>
                       (case nth_opt (btree d) (unat symb) of
                          None \<Rightarrow> None
                        | Some lr \<Rightarrow> Some (uint (LR_left lr))))))))"

text \<open>
  The number of values stored in the first \<open>n\<close> blocks: block \<open>j\<close> stores
  \<open>blockLength[j] + 1\<close> values.
\<close>

definition values_before :: "16 word list \<Rightarrow> nat \<Rightarrow> nat" where
  "values_before bl n = sum_list (map (\<lambda>w. unat w + 1) (take n bl))"

text \<open>
  A well-formed sub-table of \<open>tb_size\<close> values: \<open>span\<close> is positive and small enough
  for \<open>int diff\<close>; \<open>sparseIndex\<close> has the \<open>sparseIndexSize\<close> entries that \<open>set_sizes\<close>
  computes; the \<open>blocksNum\<close> blocks hold all \<open>tb_size\<close> values; and entry \<open>k\<close> of the
  sparse index names the block and the offset within it of the value with index
  \<open>I(k) = k * span + span / 2\<close>, as the source's comment defines it.
\<close>

definition sparse_consistent :: "PairsData \<Rightarrow> nat \<Rightarrow> bool" where
  "sparse_consistent d tb_size \<longleftrightarrow>
     0 < span d \<and> span d \<le> 2 ^ 30
     \<and> length (sparseIndex d) = (tb_size + span d - 1) div span d
     \<and> length (sparseIndex d) \<le> 2 ^ 32
     \<and> unat (blocksNum d) \<le> length (blockLength d)
     \<and> tb_size \<le> values_before (blockLength d) (unat (blocksNum d))
     \<and> list_all (\<lambda>(k, blk, off).
            unat blk < length (blockLength d)
            \<and> values_before (blockLength d) (unat blk) + unat off = k * span d + span d div 2)
          (enumerate 0 (sparseIndex d))"


definition pairs_example :: PairsData where
  "pairs_example = \<lparr>flags = 0, maxSymLen = 1, minSymLen = 1, blocksNum = 2, sizeofBlock = 32,
     span = 4, lowestSym = [], btree = [], blockLength = [3, 5, 0],
     sparseIndex = [(0, 2), (1, 2), (2, 0)], data = [], base64 = [], symlen = [],
     pieces = [], groupIdx = [], groupLen = [], map_idx = []\<rparr>"

definition pairs_single :: PairsData where
  "pairs_single = \<lparr>flags = 128, maxSymLen = 0, minSymLen = 3, blocksNum = 0, sizeofBlock = 0,
     span = 0, lowestSym = [], btree = [], blockLength = [],
     sparseIndex = [], data = [], base64 = [], symlen = [],
     pieces = [], groupIdx = [], groupLen = [], map_idx = []\<rparr>"

subsection \<open>TBTable and map_score\<close>

text \<open>
  \<open>enum Variant\<close> is declared in types.h (not among the sources); its enumerators are
  listed in the order of the per-variant tables of tbprobe.cpp (\<open>WdlSuffixes[]\<close>): main
  variants first, then the sub-variants.
\<close>

datatype Variant =
    CHESS_VARIANT | ANTI_VARIANT | ATOMIC_VARIANT | CRAZYHOUSE_VARIANT | EXTINCTION_VARIANT
  | GRID_VARIANT | HORDE_VARIANT | KOTH_VARIANT | LOSERS_VARIANT | RACE_VARIANT
  | THREECHECK_VARIANT | TWOKINGS_VARIANT | GIVEAWAY_VARIANT | SUICIDE_VARIANT
  | BUGHOUSE_VARIANT | DISPLACEDGRID_VARIANT | LOOP_VARIANT | SLIPPEDGRID_VARIANT
  | TWOKINGSSYMMETRIC_VARIANT

text \<open>
  \<open>struct TBTable<Type>\<close>; \<open>tbtype\<close> is the template parameter, \<open>tb_map\<close> the bytes
  that \<open>uint8_t* map\<close> points to, \<open>items\<close> the array \<open>items[Sides][4]\<close>.
\<close>

record TBTable =
  tbtype :: TBType
  tb_map :: "8 word list"
  variant :: Variant
  key :: "64 word"
  key2 :: "64 word"
  pieceCount :: int
  hasPawns :: bool
  numUniquePieces :: int
  minLikeMan :: int
  pawnCount :: "8 word list"
  items :: "PairsData list list"

definition Sides :: "TBTable \<Rightarrow> nat" where
  "Sides e = (if tbtype e = WDL then 2 else 1)"

text \<open>\<open>PairsData* get(int stm, int f) { return &items[stm % Sides][hasPawns ? f : 0]; }\<close>\<close>

definition TBTable_get :: "TBTable \<Rightarrow> nat \<Rightarrow> nat \<Rightarrow> PairsData" where
  "TBTable_get e stm f = items e ! (stm mod Sides e) ! (if hasPawns e then f else 0)"

definition WDLMap :: "nat list" where
  "WDLMap = [1, 3, 0, 2, 0]"

text \<open>
  \<open>map[i]\<close> and \<open>((uint16_t *)map)[i]\<close> (a little-endian host); an index outside the
  mapped bytes is a fault.
\<close>

definition read_u8 :: "8 word list \<Rightarrow> int \<Rightarrow> int option" where
  "read_u8 m i = (if 0 \<le> i \<and> nat i < length m then Some (uint (m ! nat i)) else None)"

definition read_u16 :: "8 word list \<Rightarrow> int \<Rightarrow> int option" where
  "read_u16 m i =
     (if 0 \<le> i \<and> 2 * nat i + 1 < length m
      then Some (uint (m ! (2 * nat i)) + 256 * uint (m ! (2 * nat i + 1)))
      else None)"

text \<open>
  \<open>int map_score(TBTable<DTZ>* entry, File f, int value, WDLScore wdl)\<close>. \<open>value\<close> is
  the 12-bit result of \<open>decompress_pairs\<close>, so \<open>value * 2 + 1\<close> stays within \<open>int\<close>.
\<close>

definition map_score_DTZ :: "TBTable \<Rightarrow> nat \<Rightarrow> int \<Rightarrow> WDLScore \<Rightarrow> int option" where
  "map_score_DTZ entry f val wdl =
     (let flgs = flags (TBTable_get entry 0 f);
          mp = tb_map entry;
          idx = map_idx (TBTable_get entry 0 f);
          mapped =
            (if flgs AND Mapped \<noteq> 0 then
               (if flgs AND Wide \<noteq> 0
                then read_u16 mp (uint (idx ! (WDLMap ! nat (wdl_int wdl + 2))) + val)
                else read_u8 mp (uint (idx ! (WDLMap ! nat (wdl_int wdl + 2))) + val))
             else Some val)
      in case mapped of
           None \<Rightarrow> None
         | Some v \<Rightarrow>
             Some ((if (wdl = WDLWin \<and> \<not> (flgs AND WinPlies \<noteq> 0))
                      \<or> (wdl = WDLLoss \<and> \<not> (flgs AND LossPlies \<noteq> 0))
                      \<or> wdl = WDLCursedWin
                      \<or> wdl = WDLBlessedLoss
                    then v * 2 else v) + 1))"

text \<open>\<open>WDLScore map_score(TBTable<WDL>*, File, int value, WDLScore) { return WDLScore(value - 2); }\<close>\<close>

definition map_score_WDL :: "int \<Rightarrow> int" where
  "map_score_WDL val = val - 2"

text \<open>The claim's reading of the DTZ remap: the slot of \<open>map_idx\<close> per WDL value.\<close>

fun wdl_slot :: "WDLScore \<Rightarrow> nat" where
  "wdl_slot WDLLoss = 1"
| "wdl_slot WDLBlessedLoss = 3"
| "wdl_slot WDLDraw = 0"
| "wdl_slot WDLCursedWin = 2"
| "wdl_slot WDLWin = 0"

definition dtz_pairs :: "8 word \<Rightarrow> 16 word list \<Rightarrow> PairsData" where
  "dtz_pairs f mi = \<lparr>flags = f, maxSymLen = 0, minSymLen = 0, blocksNum = 0, sizeofBlock = 0,
     span = 0, lowestSym = [], btree = [], blockLength = [],
     sparseIndex = [], data = [], base64 = [], symlen = [],
     pieces = [], groupIdx = [], groupLen = [], map_idx = mi\<rparr>"

definition dtz_table :: "8 word \<Rightarrow> TBTable" where
  "dtz_table f = \<lparr>tbtype = DTZ, tb_map = [2, 10, 20, 1, 7, 0, 0, 3, 9, 0, 0],
     variant = CHESS_VARIANT, key = 1, key2 = 2, pieceCount = 3, hasPawns = False,
     numUniquePieces = 3, minLikeMan = 0, pawnCount = [0, 0],
     items = [[dtz_pairs f [1, 4, 6, 6]]]\<rparr>"

subsection \<open>TBTables: the Robin Hood hash table\<close>

text \<open>
  \<open>struct Entry { Key key; TBTable<WDL>* wdl; TBTable<DTZ>* dtz; }\<close>, the pointers as
  addresses. \<open>Size\<close> is \<open>1 << 15\<close> when ANTI is defined and \<open>1 << 12\<close> otherwise; it is
  the parameter \<open>sz\<close> here. \<open>Overflow = 1\<close>, and \<open>hashTable\<close> has \<open>Size + Overflow\<close>
  entries.
\<close>

record Entry =
  e_key :: "64 word"
  e_wdl :: nat
  e_dtz :: nat

definition Overflow :: nat where
  "Overflow = 1"

text \<open>\<open>template <TBType Type> TBTable<Type>* get() const\<close>\<close>

definition Entry_get :: "TBType \<Rightarrow> Entry \<Rightarrow> nat" where
  "Entry_get ty e = (if ty = WDL then e_wdl e else e_dtz e)"

text \<open>\<open>(uint32_t)key & (Size - 1)\<close>\<close>

definition homeBucket_of :: "nat \<Rightarrow> 64 word \<Rightarrow> nat" where
  "homeBucket_of sz k = unat ((ucast k :: 32 word) AND word_of_nat (sz - 1))"

text \<open>\<open>memset(hashTable, 0, sizeof(hashTable))\<close>\<close>

definition TBTables_clear :: "nat \<Rightarrow> Entry list" where
  "TBTables_clear sz = replicate (sz + Overflow) \<lparr>e_key = 0, e_wdl = nullptr, e_dtz = nullptr\<rparr>"

text \<open>
  The loop of \<open>TBTables::insert\<close>, from \<open>bucket\<close> on, with the current \<open>key\<close>,
  \<open>homeBucket\<close> and \<open>entry\<close>; \<open>Inl\<close> is the exit after "TB hash table size too low!".
\<close>

function insert_loop ::
  "nat \<Rightarrow> Entry list \<Rightarrow> nat \<Rightarrow> 64 word \<Rightarrow> nat \<Rightarrow> Entry \<Rightarrow> exit_msg + Entry list" where
  "insert_loop sz hashTable bucket k homeBucket entry =
     (if bucket < sz + Overflow - 1 then
        (let otherKey = e_key (hashTable ! bucket) in
         if otherKey = k \<or> Entry_get WDL (hashTable ! bucket) = nullptr
         then Inr (hashTable[bucket := entry])
         else
           (let otherHomeBucket = homeBucket_of sz otherKey in
            if otherHomeBucket > homeBucket
            then insert_loop sz (hashTable[bucket := entry]) (bucket + 1)
                   otherKey otherHomeBucket (hashTable ! bucket)
            else insert_loop sz hashTable (bucket + 1) k homeBucket entry))
      else Inl TB_hash_table_size_too_low)"
  by pat_completeness auto
termination
  by (relation "measure (\<lambda>(sz, hashTable, bucket, k, homeBucket, entry). sz + Overflow - 1 - bucket)")
     auto

declare insert_loop.simps [simp del]

definition TBTables_insert :: "nat \<Rightarrow> Entry list \<Rightarrow> 64 word \<Rightarrow> nat \<Rightarrow> nat \<Rightarrow> exit_msg + Entry list" where
  "TBTables_insert sz hashTable k wdl dtz =
     insert_loop sz hashTable (homeBucket_of sz k) k (homeBucket_of sz k)
       \<lparr>e_key = k, e_wdl = wdl, e_dtz = dtz\<rparr>"

text \<open>A sequence of insertions, stopped by the first exit.\<close>

fun inserts :: "nat \<Rightarrow> Entry list \<Rightarrow> (64 word \<times> nat \<times> nat) list \<Rightarrow> exit_msg + Entry list" where
  "inserts sz hashTable [] = Inr hashTable"
| "inserts sz hashTable ((k, wdl, dtz) # xs) =
     (case TBTables_insert sz hashTable k wdl dtz of
        Inl e \<Rightarrow> Inl e
      | Inr t \<Rightarrow> inserts sz t xs)"

text \<open>
  The linear probe of \<open>TBTables::get<Type>\<close>: the index of the entry at which it stops;
  a probe that runs past the array is a fault.
\<close>

function get_probe :: "Entry list \<Rightarrow> TBType \<Rightarrow> nat \<Rightarrow> 64 word \<Rightarrow> nat option" where
  "get_probe hashTable ty i k =
     (if i < length hashTable then
        (if e_key (hashTable ! i) = k \<or> Entry_get ty (hashTable ! i) = nullptr then Some i
         else get_probe hashTable ty (i + 1) k)
      else None)"
  by pat_completeness auto
termination
  by (relation "measure (\<lambda>(hashTable, ty, i, k). length hashTable - i)") auto

declare get_probe.simps [simp del]

definition TBTables_get :: "nat \<Rightarrow> Entry list \<Rightarrow> TBType \<Rightarrow> 64 word \<Rightarrow> nat option" where
  "TBTables_get sz hashTable ty k =
     map_option (\<lambda>i. Entry_get ty (hashTable ! i)) (get_probe hashTable ty (homeBucket_of sz k) k)"

text \<open>Every entry sits at or after the home bucket of its key.\<close>

definition homes_ok :: "nat \<Rightarrow> Entry list \<Rightarrow> bool" where
  "homes_ok sz t \<longleftrightarrow> (\<forall>i < length t. homeBucket_of sz (e_key (t ! i)) \<le> i)"

definition three_inserts :: "(64 word \<times> nat \<times> nat) list" where
  "three_inserts = [(2, 100, 200), (5, 101, 201), (9, 102, 202)]"

subsection \<open>Squares and the tables of Tablebases::init\<close>

text \<open>
  A square is its number 0..63 (\<open>SQ_A1 = 0\<close>, \<open>SQ_H8 = 63\<close>); \<open>file_of\<close>, \<open>rank_of\<close>,
  \<open>flip_file\<close> and \<open>flip_rank\<close> are declared in types.h (not among the sources) and are
  the ones that \<open>flip_diag\<close> of tbprobe.cpp and its comment "SQ_A3 -> SQ_C1" fix: the
  file is the low three bits and the rank the high three bits.
\<close>

type_synonym Square = nat

definition file_of :: "Square \<Rightarrow> nat" where
  "file_of s = s mod 8"

definition rank_of :: "Square \<Rightarrow> nat" where
  "rank_of s = s div 8"

definition FILE_D :: nat where "FILE_D = 3"
definition RANK_4 :: nat where "RANK_4 = 3"

definition flip_file :: "Square \<Rightarrow> Square" where
  "flip_file s = unat ((word_of_nat s :: 32 word) XOR 7)"

definition flip_rank :: "Square \<Rightarrow> Square" where
  "flip_rank s = unat ((word_of_nat s :: 32 word) XOR 56)"

text \<open>\<open>int off_A1H8(Square sq) { return int(rank_of(sq)) - file_of(sq); }\<close>\<close>

definition off_A1H8 :: "Square \<Rightarrow> int" where
  "off_A1H8 sq = int (rank_of sq) - int (file_of sq)"

text \<open>\<open>Square flip_diag(Square sq) { return Square(((sq >> 3) | (sq << 3)) & 63); }\<close>\<close>

definition flip_diag :: "Square \<Rightarrow> Square" where
  "flip_diag sq =
     unat ((drop_bit 3 (word_of_nat sq :: 32 word) OR push_bit 3 (word_of_nat sq)) AND 63)"

text \<open>
  \<open>MapB1H1H7[]\<close> as \<open>init\<close> fills it: the squares below the a1-h8 diagonal are numbered
  in increasing square order; the other entries keep the zero of a global array.
\<close>

definition MapB1H1H7 :: "int list" where
  "MapB1H1H7 =
     fst (fold (\<lambda>s (m, code). if off_A1H8 s < 0 then (m[s := code], code + 1) else (m, code))
            [0..<64] (replicate 64 0, 0))"

text \<open>
  \<open>MapA1D1D4[]\<close> as \<open>init\<close> fills it: over \<open>SQ_A1 .. SQ_D4\<close>, the squares below the
  diagonal on files a-d first, the diagonal squares of files a-d after them.
\<close>

definition MapA1D1D4 :: "int list" where
  "MapA1D1D4 =
     (let (m, diagonal, code) =
            fold (\<lambda>s (m, diagonal, code).
                    if off_A1H8 s < 0 \<and> file_of s \<le> FILE_D then (m[s := code], diagonal, code + 1)
                    else if off_A1H8 s = 0 \<and> file_of s \<le> FILE_D then (m, diagonal @ [s], code)
                    else (m, diagonal, code))
                 [0..<28] (replicate 64 0, [], 0)
      in fst (fold (\<lambda>s (m, code). (m[s := code], code + 1)) diagonal (m, code)))"

text \<open>
  The other tables of \<open>init\<close> that \<open>set_groups\<close> reads are passed to it: \<open>Binomial[6][64]\<close>,
  \<open>LeadPawnsSize[6][4]\<close> and \<open>MultFactor[5]\<close>.
\<close>

record InitTables =
  Binomial :: "int list list"
  LeadPawnsSize :: "int list list"
  MultFactor :: "int list"

subsection \<open>set_groups\<close>

text \<open>
  The first loop of \<open>set_groups\<close>, from piece \<open>i\<close> on:
  \<open>if (--firstLen > 0 || d->pieces[i] == d->pieces[i - 1]) d->groupLen[n]++; else d->groupLen[++n] = 1;\<close>
\<close>

function group_lens :: "nat list \<Rightarrow> nat \<Rightarrow> nat \<Rightarrow> int \<Rightarrow> int list \<Rightarrow> nat \<Rightarrow> int list \<times> nat" where
  "group_lens pcs cnt i firstLen gl n =
     (if i < cnt then
        (if firstLen - 1 > 0 \<or> pcs ! i = pcs ! (i - 1)
         then group_lens pcs cnt (i + 1) (firstLen - 1) (gl[n := gl ! n + 1]) n
         else group_lens pcs cnt (i + 1) (firstLen - 1) (gl[n + 1 := 1]) (n + 1))
      else (gl, n))"
  by pat_completeness auto
termination
  by (relation "measure (\<lambda>(pcs, cnt, i, firstLen, gl, n). cnt - i)") auto

declare group_lens.simps [simp del]

text \<open>
  The factor of the leading group, the \<open>k == order[0]\<close> branch:
  \<open>idx *= (e.variant == CHESS_VARIANT) ? 462 : 518;\<close> for two unique pieces.
\<close>

definition lead_factor :: "InitTables \<Rightarrow> TBTable \<Rightarrow> int list \<Rightarrow> nat \<Rightarrow> int" where
  "lead_factor g e gl f =
     (if hasPawns e then LeadPawnsSize g ! nat (gl ! 0) ! f
      else if numUniquePieces e \<ge> 3 then 31332
      else if numUniquePieces e = 2 then (if variant e = CHESS_VARIANT then 462 else 518)
      else if minLikeMan e = 2 then 278
      else MultFactor g ! nat (minLikeMan e - 1))"

text \<open>
  The second loop, \<open>for (int k = 0; next < n || k == order[0] || k == order[1]; ++k)\<close>,
  with \<open>idx\<close> a \<open>uint64_t\<close>; the result is \<open>groupIdx[]\<close> after \<open>d->groupIdx[n] = idx\<close>.
\<close>

function group_idxs ::
  "InitTables \<Rightarrow> TBTable \<Rightarrow> int list \<Rightarrow> nat \<times> nat \<Rightarrow> nat \<Rightarrow> nat \<Rightarrow> nat \<Rightarrow> nat \<Rightarrow> int \<Rightarrow> 64 word
   \<Rightarrow> 64 word list \<Rightarrow> 64 word list" where
  "group_idxs g e gl order f n k nxt freeSquares idx gi =
     (if nxt < n \<or> k = fst order \<or> k = snd order then
        (if k = fst order
         then group_idxs g e gl order f n (k + 1) nxt freeSquares
                (idx * word_of_int (lead_factor g e gl f)) (gi[0 := idx])
         else if k = snd order
         then group_idxs g e gl order f n (k + 1) nxt freeSquares
                (idx * word_of_int (Binomial g ! nat (gl ! 1) ! nat (48 - gl ! 0))) (gi[1 := idx])
         else group_idxs g e gl order f n (k + 1) (nxt + 1) (freeSquares - gl ! nxt)
                (idx * word_of_int (Binomial g ! nat (gl ! nxt) ! nat freeSquares)) (gi[nxt := idx]))
      else gi[n := idx])"
  by pat_completeness auto
termination
  by (relation "measure (\<lambda>(g, e, gl, order, f, n, k, nxt, freeSquares, idx, gi).
        (n - nxt) + (if k \<le> fst order then 1 else 0) + (if k \<le> snd order then 1 else 0))")
     auto

declare group_idxs.simps [simp del]

text \<open>
  \<open>set_groups(e, d, order, f)\<close>: the record \<open>d\<close> with \<open>groupLen[]\<close> and \<open>groupIdx[]\<close>
  set. Both arrays have \<open>TBPIECES + 1 = 8\<close> entries and \<open>e.pieceCount \<le> TBPIECES\<close>.
\<close>

definition set_groups :: "InitTables \<Rightarrow> TBTable \<Rightarrow> PairsData \<Rightarrow> nat \<times> nat \<Rightarrow> nat \<Rightarrow> PairsData" where
  "set_groups g e d order f =
     (let firstLen = (if hasPawns e then 0 else if numUniquePieces e \<ge> 3 then 3 else 2);
          (gl, n) = group_lens (pieces d) (nat (pieceCount e)) 1 firstLen ((groupLen d)[0 := 1]) 0;
          n = n + 1;
          gl = gl[n := 0];
          pp = (hasPawns e \<and> pawnCount e ! 1 \<noteq> 0);
          nxt = (if pp then 2 else 1);
          freeSquares = 64 - gl ! 0 - (if pp then gl ! 1 else 0)
      in d\<lparr>groupLen := gl,
            groupIdx := group_idxs g e gl order f n 0 nxt freeSquares 1 (groupIdx d)\<rparr>)"

subsection \<open>The leading group of the position encoder\<close>

text \<open>
  \<open>connectedKings\<close> of \<open>do_probe_table\<close> (ATOMIC and ANTI defined); \<open>main_variant\<close> is
  declared in types.h and is the parameter \<open>mv\<close>.
\<close>

definition connectedKings :: "(Variant \<Rightarrow> Variant) \<Rightarrow> TBTable \<Rightarrow> bool" where
  "connectedKings mv entry =
     ((False \<or> variant entry = ATOMIC_VARIANT) \<or> mv (variant entry) = ANTI_VARIANT)"

text \<open>
  The pawnless normalisation of \<open>do_probe_table\<close> on the squares array: the file flip,
  the rank flip, and the diagonal flip from the first piece of the leading group that is
  off the a1-h8 diagonal.
\<close>

definition flip_files :: "Square list \<Rightarrow> Square list" where
  "flip_files squares = (if file_of (squares ! 0) > FILE_D then map flip_file squares else squares)"

definition flip_ranks :: "Square list \<Rightarrow> Square list" where
  "flip_ranks squares = (if rank_of (squares ! 0) > RANK_4 then map flip_rank squares else squares)"

fun flip_diags :: "nat \<Rightarrow> nat \<Rightarrow> Square list \<Rightarrow> Square list" where
  "flip_diags 0 i squares = squares"
| "flip_diags (Suc m) i squares =
     (if off_A1H8 (squares ! i) = 0 then flip_diags m (i + 1) squares
      else if off_A1H8 (squares ! i) > 0 then take i squares @ map flip_diag (drop i squares)
      else squares)"

definition normalize_pawnless :: "nat \<Rightarrow> Square list \<Rightarrow> Square list" where
  "normalize_pawnless groupLen0 squares = flip_diags groupLen0 0 (flip_ranks (flip_files squares))"

text \<open>
  The index of the leading group when \<open>entry->numUniquePieces >= 3\<close>, and the branch
  (0..3) that computes it.
\<close>

definition encode_lead3 :: "Square \<Rightarrow> Square \<Rightarrow> Square \<Rightarrow> int" where
  "encode_lead3 s0 s1 s2 =
     (let adjust1 = (if s1 > s0 then 1 else 0) :: int;
          adjust2 = (if s2 > s0 then 1 else 0) + (if s2 > s1 then 1 else 0) :: int
      in if off_A1H8 s0 \<noteq> 0 then
           (MapA1D1D4 ! s0 * 63 + (int s1 - adjust1)) * 62 + int s2 - adjust2
         else if off_A1H8 s1 \<noteq> 0 then
           (6 * 63 + int (rank_of s0) * 28 + MapB1H1H7 ! s1) * 62 + int s2 - adjust2
         else if off_A1H8 s2 \<noteq> 0 then
           6 * 63 * 62 + 4 * 28 * 62 + int (rank_of s0) * 7 * 28
             + (int (rank_of s1) - adjust1) * 28 + MapB1H1H7 ! s2
         else
           6 * 63 * 62 + 4 * 28 * 62 + 4 * 7 * 28 + int (rank_of s0) * 7 * 6
             + (int (rank_of s1) - adjust1) * 6 + (int (rank_of s2) - adjust2))"

definition lead3_branch :: "Square \<Rightarrow> Square \<Rightarrow> Square \<Rightarrow> nat" where
  "lead3_branch s0 s1 s2 =
     (if off_A1H8 s0 \<noteq> 0 then 0 else if off_A1H8 s1 \<noteq> 0 then 1
      else if off_A1H8 s2 \<noteq> 0 then 2 else 3)"

text \<open>The index range of each branch: its first index and its size.\<close>

definition branch_lo :: "nat \<Rightarrow> int" where
  "branch_lo b = [0, 6 * 63 * 62, 6 * 63 * 62 + 4 * 28 * 62, 6 * 63 * 62 + 4 * 28 * 62 + 4 * 7 * 28] ! b"

definition branch_size :: "nat \<Rightarrow> int" where
  "branch_size b = [6 * 63 * 62, 4 * 28 * 62, 4 * 7 * 28, 4 * 7 * 6] ! b"

text \<open>
  A normalised triple: three distinct squares, the first in the a1-d4 quarter, and the
  first of them off the a1-h8 diagonal below it.
\<close>

definition tri_normalized :: "Square \<Rightarrow> Square \<Rightarrow> Square \<Rightarrow> bool" where
  "tri_normalized s0 s1 s2 \<longleftrightarrow>
     s0 < 64 \<and> s1 < 64 \<and> s2 < 64 \<and> s0 \<noteq> s1 \<and> s0 \<noteq> s2 \<and> s1 \<noteq> s2
     \<and> file_of s0 \<le> FILE_D \<and> rank_of s0 \<le> RANK_4
     \<and> (off_A1H8 s0 < 0
         \<or> (off_A1H8 s0 = 0 \<and> (off_A1H8 s1 < 0 \<or> (off_A1H8 s1 = 0 \<and> off_A1H8 s2 \<le> 0))))"

text \<open>
  The indices that branch \<open>b\<close> of the formula produces, over all normalised triples that
  take this branch.
\<close>

definition branch_indices :: "nat \<Rightarrow> int set" where
  "branch_indices b =
     {encode_lead3 s0 s1 s2 | s0 s1 s2. tri_normalized s0 s1 s2 \<and> lead3_branch s0 s1 s2 = b}"

text \<open>A pawnless table with three unique pieces (KRvK) and its piece sequence.\<close>

definition empty_tables :: InitTables where
  "empty_tables = \<lparr>Binomial = [], LeadPawnsSize = [], MultFactor = []\<rparr>"

definition krk_table :: TBTable where
  "krk_table = \<lparr>tbtype = WDL, tb_map = [], variant = CHESS_VARIANT, key = 1, key2 = 2,
     pieceCount = 3, hasPawns = False, numUniquePieces = 3, minLikeMan = 0, pawnCount = [0, 0],
     items = []\<rparr>"

definition krk_pairs :: PairsData where
  "krk_pairs = \<lparr>flags = 0, maxSymLen = 0, minSymLen = 0, blocksNum = 0, sizeofBlock = 0,
     span = 0, lowestSym = [], btree = [], blockLength = [],
     sparseIndex = [], data = [], base64 = [], symlen = [],
     pieces = [6, 4, 14, 0, 0, 0, 0], groupIdx = replicate 8 0, groupLen = replicate 8 0,
     map_idx = []\<rparr>"

text \<open>
  A pawnless table with two unique pieces (KRRvK) in the two-kings variant, whose files
  are the standard ".rtbw" ones (\<open>WdlSuffixes[]\<close>), and its piece sequence.
\<close>

definition twokings_table :: TBTable where
  "twokings_table = \<lparr>tbtype = WDL, tb_map = [], variant = TWOKINGS_VARIANT, key = 1, key2 = 2,
     pieceCount = 4, hasPawns = False, numUniquePieces = 2, minLikeMan = 2, pawnCount = [0, 0],
     items = []\<rparr>"

definition twokings_pairs :: PairsData where
  "twokings_pairs = \<lparr>flags = 0, maxSymLen = 0, minSymLen = 0, blocksNum = 0, sizeofBlock = 0,
     span = 0, lowestSym = [], btree = [], blockLength = [],
     sparseIndex = [], data = [], base64 = [], symlen = [],
     pieces = [6, 14, 4, 4, 0, 0, 0], groupIdx = replicate 8 0, groupLen = replicate 8 0,
     map_idx = []\<rparr>"

subsection \<open>The probe driver\<close>

text \<open>
  \<open>enum ProbeState\<close> (tbprobe.h, not among the sources): the states that the probe code
  stores through \<open>ProbeState* result\<close>.
\<close>

datatype ProbeState = FAIL | OK | CHANGE_STM | ZEROING_BEST_MOVE | THREAT

text \<open>\<open>inline WDLScore operator-(WDLScore d) { return WDLScore(-int(d)); }\<close>\<close>

fun neg_wdl :: "WDLScore \<Rightarrow> WDLScore" where
  "neg_wdl WDLLoss = WDLWin"
| "neg_wdl WDLBlessedLoss = WDLCursedWin"
| "neg_wdl WDLDraw = WDLDraw"
| "neg_wdl WDLCursedWin = WDLBlessedLoss"
| "neg_wdl WDLWin = WDLLoss"

text \<open>\<open>template <typename T> int sign_of(T val) { return (T(0) < val) - (val < T(0)); }\<close>\<close>

definition sign_of :: "int \<Rightarrow> int" where
  "sign_of val = (if 0 < val then 1 else 0) - (if val < 0 then 1 else 0)"

definition dtz_before_zeroing :: "WDLScore \<Rightarrow> int" where
  "dtz_before_zeroing wdl =
     (if wdl = WDLWin then 1
      else if wdl = WDLCursedWin then 101
      else if wdl = WDLBlessedLoss then - 101
      else if wdl = WDLLoss then - 1 else 0)"

text \<open>
  The \<open>Position\<close> that the driver consumes is the game tree below it: what the probe code
  asks of the position itself (\<open>pos_info\<close>), and for each move of \<open>MoveList<LEGAL>\<close> and
  \<open>MoveList<CAPTURES>\<close> whether it captures, whether the moved piece is a pawn, and the
  position after \<open>do_move\<close>. The table lookup of \<open>probe_table\<close>
  (\<open>TBTables.get\<close>, \<open>mapped\<close>, \<open>do_probe_table\<close>) is a field of the position:
  \<open>wdl_entry\<close> is \<open>None\<close> when the entry is missing or cannot be mapped and the stored
  WDL value otherwise; \<open>dtz_entry wdl\<close> is \<open>DtzMissing\<close>, or \<open>DtzChangeStm\<close> when
  \<open>check_dtz_stm\<close> fails, or the value of \<open>map_score\<close>.
\<close>

datatype dtz_lookup = DtzMissing | DtzChangeStm | DtzValue int

record pos_info =
  is_anti :: bool
  pos_variant :: Variant
  is_variant_end :: bool
  variant_result :: int
  checkers :: bool
  checkmate_value :: int
  stalemate_value :: int
  count_all :: nat
  count_them :: nat
  only_pawns :: bool
  wdl_entry :: "WDLScore option"
  dtz_entry :: "WDLScore \<Rightarrow> dtz_lookup"

datatype position = Position (info: pos_info) (legal: "tbmove list") (captures: "tbmove list")
and tbmove = TBMove (capture: bool) (pawn_move: bool) (after: position)

text \<open>\<open>result_to_score<WDL>\<close> and \<open>result_to_score<DTZ>\<close>\<close>

definition result_to_score_WDL :: "int \<Rightarrow> WDLScore" where
  "result_to_score_WDL v = (if v > 0 then WDLWin else if v < 0 then WDLLoss else WDLDraw)"

definition result_to_score_DTZ :: "int \<Rightarrow> int" where
  "result_to_score_DTZ v = (if v > 0 then 1 else if v < 0 then - 1 else 0)"

text \<open>
  \<open>probe_table<WDL>(pos, result)\<close> and \<open>probe_table<DTZ>(pos, result, wdl)\<close>: the value
  and \<open>*result\<close> afterwards, \<open>st\<close> being \<open>*result\<close> before.
\<close>

definition probe_table_WDL :: "position \<Rightarrow> ProbeState \<Rightarrow> WDLScore \<times> ProbeState" where
  "probe_table_WDL pos st =
     (if is_variant_end (info pos) then (result_to_score_WDL (variant_result (info pos)), st)
      else if pos_variant (info pos) \<noteq> CHESS_VARIANT \<and> length (legal pos) = 0
        then (result_to_score_WDL (if checkers (info pos) then checkmate_value (info pos)
                                     else stalemate_value (info pos)), st)
      else if \<not> is_anti (info pos) \<and> count_all (info pos) = 2 then (WDLDraw, st)
      else (case wdl_entry (info pos) of
              None \<Rightarrow> (WDLDraw, FAIL)
            | Some v \<Rightarrow> (v, st)))"

definition probe_table_DTZ :: "position \<Rightarrow> ProbeState \<Rightarrow> WDLScore \<Rightarrow> int \<times> ProbeState" where
  "probe_table_DTZ pos st wdl =
     (if is_variant_end (info pos) then (result_to_score_DTZ (variant_result (info pos)), st)
      else if pos_variant (info pos) \<noteq> CHESS_VARIANT \<and> length (legal pos) = 0
        then (result_to_score_DTZ (if checkers (info pos) then checkmate_value (info pos)
                                     else stalemate_value (info pos)), st)
      else if \<not> is_anti (info pos) \<and> count_all (info pos) = 2 then (0, st)
      else (case dtz_entry (info pos) wdl of
              DtzMissing \<Rightarrow> (0, FAIL)
            | DtzChangeStm \<Rightarrow> (0, CHANGE_STM)
            | DtzValue v \<Rightarrow> (v, st)))"

text \<open>
  \<open>search<CheckZeroingMoves>\<close>, \<open>sprobe_ab<Threats>\<close> and \<open>sprobe_captures\<close> (ANTI
  defined), each with its loop over the move list. A loop gives \<open>Inl\<close> when the function
  returns from inside it and \<open>Inr\<close> of its variables when it runs to the end.
\<close>

function sprobe_ab :: "bool \<Rightarrow> position \<Rightarrow> WDLScore \<Rightarrow> WDLScore \<Rightarrow> ProbeState \<Rightarrow> WDLScore \<times> ProbeState"
and threats_loop :: "tbmove list \<Rightarrow> WDLScore \<Rightarrow> WDLScore \<Rightarrow> bool \<Rightarrow> ProbeState
      \<Rightarrow> (WDLScore \<times> ProbeState) + (WDLScore \<times> bool \<times> ProbeState)"
and sprobe_captures :: "position \<Rightarrow> WDLScore \<Rightarrow> WDLScore \<Rightarrow> ProbeState \<Rightarrow> WDLScore \<times> ProbeState"
and captures_loop :: "tbmove list \<Rightarrow> WDLScore \<Rightarrow> WDLScore \<Rightarrow> ProbeState
      \<Rightarrow> (WDLScore \<times> ProbeState) + (WDLScore \<times> ProbeState)"
where
  "sprobe_ab threats (Position i ls cs) alpha beta st =
     (case (if count_them i > 1
            then (case sprobe_captures (Position i ls cs) alpha beta st of
                    (v, st1) \<Rightarrow> if st1 = ZEROING_BEST_MOVE \<or> st1 = FAIL then Inl (v, st1) else Inr st1)
            else if length cs \<noteq> 0 then Inl (WDLLoss, ZEROING_BEST_MOVE) else Inr st) of
        Inl r \<Rightarrow> r
      | Inr st1 \<Rightarrow>
         (case (if threats \<or> count_all i \<ge> 6 then threats_loop ls alpha beta False st1
                else Inr (alpha, False, st1)) of
            Inl r \<Rightarrow> r
          | Inr (alpha1, threatFound, st2) \<Rightarrow>
             (case probe_table_WDL (Position i ls cs) OK of
                (v, st3) \<Rightarrow>
                  if st3 = FAIL then (WDLDraw, st3)
                  else if wdl_int v > wdl_int alpha1 then (v, st3)
                  else (alpha1, if threatFound then THREAT else st3))))"
| "threats_loop [] alpha beta threatFound st = Inr (alpha, threatFound, st)"
| "threats_loop (TBMove c p a # ms) alpha beta threatFound st =
     (case sprobe_captures a (neg_wdl beta) (neg_wdl alpha) st of
        (v0, st1) \<Rightarrow>
         (let v = neg_wdl v0 in
          if st1 = FAIL then Inl (WDLDraw, st1)
          else if st1 = ZEROING_BEST_MOVE \<and> wdl_int v > wdl_int alpha then
            (if wdl_int v \<ge> wdl_int beta then Inl (v, THREAT)
             else threats_loop ms v beta True st1)
          else threats_loop ms alpha beta threatFound st1))"
| "sprobe_captures (Position i ls cs) alpha beta st =
     (case captures_loop cs alpha beta OK of
        Inl r \<Rightarrow> r
      | Inr (alpha1, st1) \<Rightarrow> (alpha1, if length cs \<noteq> 0 then ZEROING_BEST_MOVE else st1))"
| "captures_loop [] alpha beta st = Inr (alpha, st)"
| "captures_loop (TBMove c p a # ms) alpha beta st =
     (case sprobe_ab False a (neg_wdl beta) (neg_wdl alpha) st of
        (v0, st1) \<Rightarrow>
         (let v = neg_wdl v0 in
          if st1 = FAIL then Inl (WDLDraw, st1)
          else if wdl_int v > wdl_int alpha then
            (if wdl_int v \<ge> wdl_int beta then Inr (v, st1)
             else captures_loop ms v beta st1)
          else captures_loop ms alpha beta st1))"
  by pat_completeness auto
termination
  by (relation "measure (\<lambda>x. case x of
        Inl (Inl (threats, pos, alpha, beta, st)) \<Rightarrow> 2 * size pos + 1
      | Inl (Inr (ms, alpha, beta, threatFound, st)) \<Rightarrow> 2 * size_list size ms
      | Inr (Inl (pos, alpha, beta, st)) \<Rightarrow> 2 * size pos
      | Inr (Inr (ms, alpha, beta, st)) \<Rightarrow> 2 * size_list size ms)")
     simp_all

declare sprobe_ab.simps [simp del] sprobe_captures.simps [simp del]

function search :: "bool \<Rightarrow> position \<Rightarrow> ProbeState \<Rightarrow> WDLScore \<times> ProbeState"
and search_loop :: "bool \<Rightarrow> tbmove list \<Rightarrow> WDLScore \<Rightarrow> nat \<Rightarrow> ProbeState
      \<Rightarrow> (WDLScore \<times> ProbeState) + (WDLScore \<times> nat \<times> ProbeState)"
where
  "search czm (Position i ls cs) st =
     (if is_anti i then sprobe_ab czm (Position i ls cs) WDLLoss WDLWin st
      else
        (case search_loop czm ls WDLLoss 0 st of
           Inl r \<Rightarrow> r
         | Inr (bestValue, moveCount, st1) \<Rightarrow>
            (let totalCount = length ls;
                 noMoreMoves = (moveCount \<noteq> 0 \<and> moveCount = totalCount);
                 (val, st2) = (if noMoreMoves then (bestValue, st1)
                               else probe_table_WDL (Position i ls cs) st1)
             in if \<not> noMoreMoves \<and> st2 = FAIL then (WDLDraw, st2)
                else if wdl_int bestValue \<ge> wdl_int val
                  then (bestValue, if wdl_int bestValue > wdl_int WDLDraw \<or> noMoreMoves
                                   then ZEROING_BEST_MOVE else OK)
                else (val, OK))))"
| "search_loop czm [] bestValue moveCount st = Inr (bestValue, moveCount, st)"
| "search_loop czm (TBMove c p a # ms) bestValue moveCount st =
     (if \<not> c \<and> (\<not> czm \<or> \<not> p) then search_loop czm ms bestValue moveCount st
      else
        (case search False a st of
           (v, st1) \<Rightarrow>
            (let val = neg_wdl v in
             if st1 = FAIL then Inl (WDLDraw, st1)
             else if wdl_int val > wdl_int bestValue then
               (if wdl_int val \<ge> wdl_int WDLWin then Inl (val, ZEROING_BEST_MOVE)
                else search_loop czm ms val (moveCount + 1) st1)
             else search_loop czm ms bestValue (moveCount + 1) st1)))"
  by pat_completeness auto
termination
  by (relation "measure (\<lambda>x. case x of
        Inl (czm, pos, st) \<Rightarrow> size pos
      | Inr (czm, ms, bestValue, moveCount, st) \<Rightarrow> size_list size ms)")
     simp_all

declare search.simps [simp del]

text \<open>\<open>Tablebases::probe_wdl\<close>\<close>

definition probe_wdl :: "position \<Rightarrow> WDLScore \<times> ProbeState" where
  "probe_wdl pos = search False pos OK"

text \<open>
  \<open>Tablebases::probe_dtz\<close> and its loop over \<open>MoveList<LEGAL>\<close> after \<open>CHANGE_STM\<close>;
  \<open>*result = OK\<close> comes first, so the state before the call plays no part.
\<close>

function probe_dtz :: "position \<Rightarrow> int \<times> ProbeState"
and dtz_loop :: "tbmove list \<Rightarrow> WDLScore \<Rightarrow> int \<Rightarrow> ProbeState \<Rightarrow> (int \<times> ProbeState) + (int \<times> ProbeState)"
where
  "probe_dtz (Position i ls cs) =
     (case search True (Position i ls cs) OK of
        (wdl, st) \<Rightarrow>
          if st = FAIL \<or> wdl = WDLDraw then (0, st)
          else if st = ZEROING_BEST_MOVE then (dtz_before_zeroing wdl, st)
          else if is_anti i \<and> only_pawns i then (dtz_before_zeroing wdl, st)
          else if is_anti i \<and> st = THREAT \<and> wdl_int wdl > wdl_int WDLDraw
            then (if wdl = WDLWin then 2 else 102, st)
          else
            (case probe_table_DTZ (Position i ls cs) st wdl of
               (dtz, st1) \<Rightarrow>
                 if st1 = FAIL then (0, st1)
                 else if st1 \<noteq> CHANGE_STM
                   then ((dtz + 100 * (if wdl = WDLBlessedLoss \<or> wdl = WDLCursedWin then 1 else 0))
                           * sign_of (wdl_int wdl), st1)
                 else
                   (case dtz_loop ls wdl 0xFFFF st1 of
                      Inl r \<Rightarrow> r
                    | Inr (minDTZ, st2) \<Rightarrow> (if minDTZ = 0xFFFF then - 1 else minDTZ, st2))))"
| "dtz_loop [] wdl minDTZ st = Inr (minDTZ, st)"
| "dtz_loop (TBMove c p a # ms) wdl minDTZ st =
     (let zeroing = (c \<or> p) in
      case (if zeroing then (case search False a st of (v, s) \<Rightarrow> (- dtz_before_zeroing v, s))
            else (case probe_dtz a of (d, s) \<Rightarrow> (- d, s))) of
        (dtz, st1) \<Rightarrow>
         (let minDTZ1 = (if dtz = 1 \<and> checkers (info a) \<and> length (legal a) = 0 then 1 else minDTZ);
              dtz1 = (if \<not> zeroing then dtz + sign_of dtz else dtz);
              minDTZ2 = (if dtz1 < minDTZ1 \<and> sign_of dtz1 = sign_of (wdl_int wdl) then dtz1 else minDTZ1)
          in if st1 = FAIL then Inl (0, st1) else dtz_loop ms wdl minDTZ2 st1))"
  by pat_completeness auto
termination
  by (relation "measure (\<lambda>x. case x of
        Inl pos \<Rightarrow> size pos
      | Inr (ms, wdl, minDTZ, st) \<Rightarrow> size_list size ms)")
     simp_all

declare probe_dtz.simps [simp del]

text \<open>
  Positions for the examples. \<open>rook_capture_pos\<close> is 8/8/8/8/8/8/r1k5/K7 w: the only
  legal move is Kxa2, which leaves the two kings. \<open>chess_mate\<close> is a chess position whose
  side to move is checkmated, with the tables' answers as fields; in \<open>capture_mate_pos\<close>
  the only legal move is a capture that checkmates; \<open>atomic_mate\<close> is a checkmated
  position of the atomic variant. \<open>checkmate_value()\<close> is \<open>-VALUE_MATE\<close>.
\<close>

definition info0 :: pos_info where
  "info0 = \<lparr>is_anti = False, pos_variant = CHESS_VARIANT, is_variant_end = False,
     variant_result = 0, checkers = False, checkmate_value = - 32000, stalemate_value = 0,
     count_all = 3, count_them = 1, only_pawns = False, wdl_entry = None,
     dtz_entry = (\<lambda>wdl. DtzMissing)\<rparr>"

definition kvk_leaf :: position where
  "kvk_leaf = Position (info0\<lparr>count_all := 2\<rparr>) [] []"

definition kvk_pos :: position where
  "kvk_pos = Position (info0\<lparr>count_all := 2\<rparr>) [TBMove False False kvk_leaf] []"

definition rook_capture_pos :: position where
  "rook_capture_pos =
     Position (info0\<lparr>checkers := True, count_them := 2, wdl_entry := Some WDLDraw,
                      dtz_entry := (\<lambda>wdl. DtzValue 1)\<rparr>)
       [TBMove True False kvk_pos] [TBMove True False kvk_pos]"

definition chess_mate :: "dtz_lookup \<Rightarrow> position" where
  "chess_mate dtz =
     Position (info0\<lparr>checkers := True, count_them := 2, wdl_entry := Some WDLLoss,
                      dtz_entry := (\<lambda>wdl. dtz)\<rparr>) [] []"

definition capture_mate_pos :: position where
  "capture_mate_pos =
     Position (info0\<lparr>count_all := 4, count_them := 2, wdl_entry := Some WDLWin,
                      dtz_entry := (\<lambda>wdl. DtzValue 1)\<rparr>)
       [TBMove True False (chess_mate DtzChangeStm)] [TBMove True False (chess_mate DtzChangeStm)]"

definition atomic_mate :: position where
  "atomic_mate =
     Position (info0\<lparr>pos_variant := ATOMIC_VARIANT, checkers := True, count_them := 2,
                      wdl_entry := Some WDLLoss, dtz_entry := (\<lambda>wdl. DtzValue 1)\<rparr>) [] []"

definition missing_table_pos :: position where
  "missing_table_pos = Position info0 [] []"

definition missing_dtz_pos :: position where
  "missing_dtz_pos = Position (info0\<lparr>wdl_entry := Some WDLWin\<rparr>) [] []"

section \<open>Theorems\<close>

subsection \<open>TBFile::map\<close>

text \<open>
  C8, as stated: for an opened file, a size with \<open>size % 64 \<noteq> 16\<close> exits; otherwise a
  wrong magic returns null after unmapping; otherwise the pointer four bytes past the
  mapping is returned. The third case fails when \<open>mmap\<close> itself fails: the size and the
  magic are right and the process exits.
\<close>

theorem TBFile_map_mmap_failure_exits:
  "open_fd env_mmap_fails \<noteq> -1 \<and> st_size env_mmap_fails smod 64 = 16
   \<and> \<not> memcmp4 (contents env_mmap_fails) Magic_chess_dtz
   \<and> TBFile_map env_mmap_fails out0 Magic_chess_dtz = Inl Could_not_mmap"
  by (simp add: TBFile_map_def env_mmap_fails_def out0_def Magic_chess_dtz_def memcmp4_def
      MAP_FAILED_def signed_modulo_int_def)

text \<open>
  C8, amended: when the file cannot be re-opened the function returns null with a null
  base address; otherwise a size with \<open>size % 64 \<noteq> 16\<close> exits; otherwise a failed
  \<open>mmap\<close> exits; otherwise a wrong magic unmaps the file, nulls the base address and
  returns null; otherwise the pointer four bytes past the mapping is returned.
\<close>

theorem TBFile_map_cases:
  "TBFile_map env s magic =
     (if open_fd env = -1 then Inr (nullptr, s\<lparr>baseAddress := nullptr\<rparr>)
      else if st_size env smod 64 \<noteq> 16 then Inl Corrupt_tablebase_file
      else if mmap_ret env = MAP_FAILED then Inl Could_not_mmap
      else if take 4 (contents env) \<noteq> take 4 magic
        then Inr (nullptr, s\<lparr>mapping := st_size env, baseAddress := nullptr,
                               unmapped := unmapped s @ [(mmap_ret env, st_size env)]\<rparr>)
      else Inr (mmap_ret env + 4, s\<lparr>mapping := st_size env, baseAddress := mmap_ret env\<rparr>))"
  by (simp add: TBFile_map_def Let_def memcmp4_def)

theorem TBFile_map_cases_witness:
  "TBFile_map env_good out0 Magic_chess_dtz
     = Inr (4100, \<lparr>baseAddress = 4096, mapping = 80, unmapped = []\<rparr>)"
  using TBFile_map_cases [of env_good out0 Magic_chess_dtz]
  by (simp add: env_good_def out0_def Magic_chess_dtz_def MAP_FAILED_def signed_modulo_int_def)

subsection \<open>decompress_pairs\<close>

lemma int32_id: "- (2 ^ 31) \<le> x \<Longrightarrow> x < 2 ^ 31 \<Longrightarrow> int32 x = x"
  unfolding int32_def by (simp add: signed_of_int signed_take_bit_int_eq_self)

lemma values_before_0: "values_before bl 0 = 0"
  by (simp add: values_before_def)

lemma values_before_Suc:
  "n < length bl \<Longrightarrow> values_before bl (Suc n) = values_before bl n + unat (bl ! n) + 1"
  by (simp add: values_before_def take_Suc_conv_app_nth)

lemma values_before_mono: "a \<le> b \<Longrightarrow> values_before bl a \<le> values_before bl b"
proof (induction b)
  case 0 then show ?case by simp
next
  case (Suc b)
  show ?case
  proof (cases "a = Suc b")
    case True then show ?thesis by simp
  next
    case False
    with Suc have le: "values_before bl a \<le> values_before bl b" by simp
    show ?thesis
    proof (cases "b < length bl")
      case True
      with le show ?thesis by (simp add: values_before_Suc)
    next
      case False
      then show ?thesis using le by (simp add: values_before_def)
    qed
  qed
qed

lemma walk_back_ok:
  "int (values_before bl block) + offset = int idx \<Longrightarrow> block \<le> length bl
   \<Longrightarrow> - (2 ^ 30) \<le> offset \<Longrightarrow> offset < 2 ^ 31
   \<Longrightarrow> \<exists>b off. walk_back bl block offset = Some (b, off) \<and> 0 \<le> off \<and> off < 2 ^ 31
         \<and> int (values_before bl b) + off = int idx"
proof (induction bl block offset rule: walk_back.induct)
  case (1 bl block offset)
  show ?case
  proof (cases "offset < 0")
    case False
    with "1.prems" show ?thesis by (simp add: walk_back.simps [of bl block offset])
  next
    case True
    have nz: "block \<noteq> 0"
      using True "1.prems"(1) by (cases "block = 0") (simp_all add: values_before_0)
    let ?b = "block - 1"
    have lt: "?b < length bl" using nz "1.prems"(2) by simp
    let ?o = "offset + (uint (bl ! ?b) + 1)"
    have ub: "uint (bl ! ?b) < 2 ^ 16" using uint_bounded [of "bl ! ?b"] by simp
    have lb: "0 \<le> uint (bl ! ?b)" by simp
    have lo: "- 1073741824 \<le> offset" using "1.prems"(3) by simp
    have ub': "uint (bl ! ?b) < 65536" using ub by simp
    have "- 1073741824 \<le> ?o" "?o < 2147483648" using True lo ub' lb by linarith+
    then have rng: "- (2 ^ 30) \<le> ?o" "?o < 2 ^ 31" by simp_all
    then have id: "int32 ?o = ?o" by (simp add: int32_id)
    have vb: "values_before bl block = values_before bl ?b + unat (bl ! ?b) + 1"
      using values_before_Suc [OF lt] nz by simp
    have inv: "int (values_before bl ?b) + ?o = int idx"
      using "1.prems"(1) vb by simp
    have "\<exists>b off. walk_back bl ?b (int32 ?o) = Some (b, off) \<and> 0 \<le> off \<and> off < 2 ^ 31
         \<and> int (values_before bl b) + off = int idx"
      using "1.IH" [OF True] nz "1.prems"(2) inv rng lt unfolding id by simp
    then show ?thesis
      using True nz "1.prems"(2) by (simp add: walk_back.simps [of bl block offset] id)
  qed
qed

lemma walk_fwd_ok:
  "int (values_before bl block) + offset = int idx \<Longrightarrow> 0 \<le> offset \<Longrightarrow> offset < 2 ^ 31
   \<Longrightarrow> idx < values_before bl n \<Longrightarrow> n \<le> length bl
   \<Longrightarrow> \<exists>b off. walk_fwd bl block offset = Some (b, off) \<and> b < n \<and> 0 \<le> off
         \<and> off \<le> uint (bl ! b) \<and> int (values_before bl b) + off = int idx"
proof (induction bl block offset rule: walk_fwd.induct)
  case (1 bl block offset)
  have "values_before bl block \<le> idx" using "1.prems"(1,2) by linarith
  then have "values_before bl block < values_before bl n" using "1.prems"(4) by simp
  then have bn: "block < n"
    using values_before_mono [of n block bl] by (cases "block < n") simp_all
  then have lt: "block < length bl" using "1.prems"(5) by simp
  show ?case
  proof (cases "offset > uint (bl ! block)")
    case False
    with lt bn "1.prems" show ?thesis by (simp add: walk_fwd.simps [of bl block offset])
  next
    case True
    let ?o = "offset - (uint (bl ! block) + 1)"
    have lb: "0 \<le> uint (bl ! block)" by simp
    have hi: "offset < 2147483648" using "1.prems"(3) by simp
    have "0 \<le> ?o" "?o < 2147483648" using True lb hi by linarith+
    then have rng: "0 \<le> ?o" "?o < 2 ^ 31" "- (2 ^ 31) \<le> ?o" by simp_all
    then have id: "int32 ?o = ?o" by (simp add: int32_id)
    have inv: "int (values_before bl (block + 1)) + ?o = int idx"
      using "1.prems"(1) values_before_Suc [OF lt] by simp
    have "\<exists>b off. walk_fwd bl (block + 1) (int32 ?o) = Some (b, off) \<and> b < n \<and> 0 \<le> off
         \<and> off \<le> uint (bl ! b) \<and> int (values_before bl b) + off = int idx"
      using "1.IH" [OF lt True] inv rng "1.prems"(4,5) unfolding id by simp
    then show ?thesis using True lt by (simp add: walk_fwd.simps [of bl block offset])
  qed
qed

lemma sparse_consistent_nth:
  assumes "sparse_consistent d tb_size" "k < length (sparseIndex d)"
  shows "unat (fst (sparseIndex d ! k)) < length (blockLength d)
     \<and> values_before (blockLength d) (unat (fst (sparseIndex d ! k))) + unat (snd (sparseIndex d ! k))
         = k * span d + span d div 2"
proof -
  from assms(1) have "list_all (\<lambda>(k, blk, off).
            unat blk < length (blockLength d)
            \<and> values_before (blockLength d) (unat blk) + unat off = k * span d + span d div 2)
          (enumerate 0 (sparseIndex d))"
    by (simp add: sparse_consistent_def)
  then have "(\<lambda>(k, blk, off).
            unat blk < length (blockLength d)
            \<and> values_before (blockLength d) (unat blk) + unat off = k * span d + span d div 2)
          (enumerate 0 (sparseIndex d) ! k)"
    using assms(2) by (simp add: list_all_length)
  then show ?thesis
    using assms(2) by (simp add: nth_enumerate_eq split_beta)
qed

text \<open>
  C5: for a well-formed sub-table and an index below \<open>tb_size\<close>, the sparse-index seek
  and both block-adjustment loops finish without leaving \<open>blockLength[]\<close>, and the final
  block \<open>b\<close> and offset satisfy \<open>0 \<le> offset \<le> blockLength[b]\<close>; the block is one of
  the \<open>blocksNum\<close> blocks and the value is the one with index \<open>idx\<close>.
\<close>

theorem locate_block_in_range:
  assumes wf: "sparse_consistent d tb_size" and idx: "idx < tb_size"
  shows "\<exists>b off. locate_block d idx = Some (b, off) \<and> b < unat (blocksNum d)
           \<and> 0 \<le> off \<and> off \<le> uint (blockLength d ! b)
           \<and> int (values_before (blockLength d) b) + off = int idx"
proof -
  let ?sp = "span d" and ?bl = "blockLength d"
  from wf have sp0: "0 < ?sp" and sp30: "?sp \<le> 2 ^ 30"
    and len: "length (sparseIndex d) = (tb_size + ?sp - 1) div ?sp"
    and len32: "length (sparseIndex d) \<le> 2 ^ 32"
    and bn: "unat (blocksNum d) \<le> length ?bl"
    and tot: "tb_size \<le> values_before ?bl (unat (blocksNum d))"
    by (simp_all add: sparse_consistent_def)
  let ?k = "idx div ?sp"
  have "idx div ?sp \<le> (tb_size - 1) div ?sp" using idx by (intro div_le_mono) simp
  also have "\<dots> < (tb_size + ?sp - 1) div ?sp"
  proof -
    have "(tb_size + ?sp - 1) div ?sp = (tb_size - 1 + ?sp) div ?sp" using idx by simp
    also have "\<dots> = (tb_size - 1) div ?sp + 1" using sp0 by (simp add: div_add_self2)
    finally show ?thesis by simp
  qed
  finally have klt: "?k < length (sparseIndex d)" using len by simp
  then have kmod: "?k mod 4294967296 = ?k" using len32 by simp
  obtain blk off where e: "sparseIndex d ! ?k = (blk, off)" by (cases "sparseIndex d ! ?k")
  from sparse_consistent_nth [OF wf klt] e
  have blt: "unat blk < length ?bl"
    and cons: "values_before ?bl (unat blk) + unat off = ?k * ?sp + ?sp div 2" by simp_all
  let ?diff = "int (idx mod ?sp) - int (?sp div 2)"
  have m: "idx mod ?sp < ?sp" using sp0 by simp
  have sp30': "?sp \<le> 1073741824" using sp30 by simp
  have dr: "- 1073741824 \<le> ?diff" "?diff < 1073741824" using m sp30' by linarith+
  then have did: "int32 ?diff = ?diff" by (simp add: int32_id)
  let ?o = "uint off + ?diff"
  have ob: "uint off < 65536" "0 \<le> uint off" using uint_bounded [of off] by simp_all
  have "- 1073741824 \<le> ?o" "?o < 2147483648" using dr ob by linarith+
  then have orng: "- (2 ^ 30) \<le> ?o" "?o < 2 ^ 31" "- (2 ^ 31) \<le> ?o" by simp_all
  then have oid: "int32 ?o = ?o" by (simp add: int32_id)
  have c1: "int (values_before ?bl (unat blk)) + int (unat off) = int (?k * ?sp) + int (?sp div 2)"
    using cons by (metis of_nat_add)
  have c2: "int idx = int (?k * ?sp) + int (idx mod ?sp)"
    by (metis div_mult_mod_eq of_nat_add)
  have c3: "uint off = int (unat off)" by simp
  have inv: "int (values_before ?bl (unat blk)) + ?o = int idx"
    unfolding c3 using c1 c2 by linarith
  have ble: "unat blk \<le> length ?bl" using blt by simp
  from walk_back_ok [OF inv ble orng(1,2)]
  obtain b1 o1 where wb: "walk_back ?bl (unat blk) ?o = Some (b1, o1)"
    and o1: "0 \<le> o1" "o1 < 2 ^ 31" and inv1: "int (values_before ?bl b1) + o1 = int idx"
    by blast
  have "idx < values_before ?bl (unat (blocksNum d))" using idx tot by simp
  from walk_fwd_ok [OF inv1 o1 this bn]
  obtain b off' where wf': "walk_fwd ?bl b1 o1 = Some (b, off')" and r: "b < unat (blocksNum d)"
     "0 \<le> off'" "off' \<le> uint (?bl ! b)" "int (values_before ?bl b) + off' = int idx"
    by blast
  have "locate_block d idx = Some (b, off')"
    using sp0 klt e wb wf' by (simp add: locate_block_def nth_opt_def kmod did oid Let_def)
  with r show ?thesis by simp
qed

theorem locate_block_in_range_witness:
  "sparse_consistent pairs_example 10 \<and> (9 :: nat) < 10
   \<and> locate_block pairs_example 9 = Some (1, 5)
   \<and> (\<exists>b off. locate_block pairs_example 9 = Some (b, off) \<and> b < unat (blocksNum pairs_example)
           \<and> 0 \<le> off \<and> off \<le> uint (blockLength pairs_example ! b)
           \<and> int (values_before (blockLength pairs_example) b) + off = int 9)"
proof -
  have wf: "sparse_consistent pairs_example 10"
    by (simp add: sparse_consistent_def pairs_example_def values_before_def)
  have v: "locate_block pairs_example 9 = Some (1, 5)"
    by (simp add: locate_block_def pairs_example_def nth_opt_def int32_def
        walk_back.simps walk_fwd.simps)
  show ?thesis
    using wf v locate_block_in_range [OF wf, of 9] by simp
qed

text \<open>
  C4: when the flags contain \<open>SingleValue\<close>, \<open>decompress_pairs\<close> returns \<open>minSymLen\<close>
  for every index, whatever the other fields hold: no block is located and nothing is
  decoded.
\<close>

theorem decompress_pairs_SingleValue:
  "flags d AND SingleValue \<noteq> 0 \<Longrightarrow> decompress_pairs d idx = Some (uint (minSymLen d))"
  by (simp add: decompress_pairs_def)

theorem decompress_pairs_SingleValue_witness:
  "flags pairs_single AND SingleValue \<noteq> 0 \<and> locate_block pairs_single 12345 = None
   \<and> decompress_pairs pairs_single 12345 = Some 3"
proof -
  have f: "flags pairs_single AND SingleValue \<noteq> 0"
    by (simp add: pairs_single_def SingleValue_def)
  have l: "locate_block pairs_single 12345 = None"
    by (simp add: locate_block_def pairs_single_def)
  show ?thesis
    using f l decompress_pairs_SingleValue [OF f, of 12345] by (simp add: pairs_single_def)
qed

subsection \<open>map_score\<close>


lemma flag_bit: "f AND 2 ^ n \<noteq> 0 \<longleftrightarrow> bit f n" for f :: "8 word"
  by (simp add: and_exp_eq_0_iff_not_bit)

lemma flag_bits:
  "(f AND Mapped \<noteq> 0) = bit f 1" "(f AND WinPlies \<noteq> 0) = bit f 2"
  "(f AND LossPlies \<noteq> 0) = bit f 3" "(f AND Wide \<noteq> 0) = bit f 4"
  for f :: "8 word"
  using flag_bit [of f 1] flag_bit [of f 2] flag_bit [of f 3] flag_bit [of f 4]
  by (simp_all add: Mapped_def WinPlies_def LossPlies_def Wide_def)

lemma WDLMap_slot: "WDLMap ! nat (wdl_int wdl + 2) = wdl_slot wdl"
  by (cases wdl) (simp_all add: WDLMap_def)

text \<open>
  C3: \<open>map_score\<close> for DTZ tables first replaces \<open>value\<close> by
  \<open>map[map_idx[WDLMap[wdl+2]] + value]\<close> when the \<open>Mapped\<close> flag (bit 1) is set, reading
  16-bit entries when \<open>Wide\<close> (bit 4) is set and 8-bit entries otherwise, where
  \<open>WDLMap = [1,3,0,2,0]\<close> selects slot 1 for a loss, 3 for a blessed loss, 2 for a cursed
  win and 0 for a win or draw; then doubles the value for a win without \<open>WinPlies\<close>
  (bit 2), a loss without \<open>LossPlies\<close> (bit 3), a cursed win or a blessed loss; and
  returns the value plus one. A read outside the mapped bytes is a fault.
\<close>

theorem map_score_DTZ_steps:
  "map_score_DTZ entry f val wdl =
     (let d = TBTable_get entry 0 f;
          i = uint (map_idx d ! wdl_slot wdl) + val;
          remapped = (if bit (flags d) 1
                      then (if bit (flags d) 4 then read_u16 (tb_map entry) i
                            else read_u8 (tb_map entry) i)
                      else Some val);
          doubled = ((wdl = WDLWin \<and> \<not> bit (flags d) 2) \<or> (wdl = WDLLoss \<and> \<not> bit (flags d) 3)
                     \<or> wdl = WDLCursedWin \<or> wdl = WDLBlessedLoss)
      in map_option (\<lambda>v. (if doubled then 2 * v else v) + 1) remapped)
   \<and> WDLMap = [1, 3, 0, 2, 0]"
proof -
  let ?d = "TBTable_get entry 0 f"
  let ?i = "uint (map_idx ?d ! wdl_slot wdl) + val"
  let ?r = "(if bit (flags ?d) 1
                      then (if bit (flags ?d) 4 then read_u16 (tb_map entry) ?i
                            else read_u8 (tb_map entry) ?i)
                      else Some val)"
  have "map_score_DTZ entry f val wdl = (case ?r of None \<Rightarrow> None
     | Some v \<Rightarrow> Some ((if (wdl = WDLWin \<and> \<not> bit (flags ?d) 2) \<or> (wdl = WDLLoss \<and> \<not> bit (flags ?d) 3)
                     \<or> wdl = WDLCursedWin \<or> wdl = WDLBlessedLoss then v * 2 else v) + 1))"
    unfolding map_score_DTZ_def Let_def flag_bits WDLMap_slot by (rule refl)
  then show ?thesis
    by (cases ?r) (simp_all add: Let_def WDLMap_def mult.commute)
qed

theorem map_score_DTZ_steps_witness:
  "map_score_DTZ (dtz_table 2) 0 1 WDLWin = Some 41
   \<and> map_score_DTZ (dtz_table 6) 0 1 WDLWin = Some 21
   \<and> map_score_DTZ (dtz_table 18) 0 0 WDLLoss = Some 19
   \<and> map_score_DTZ (dtz_table 0) 0 5 WDLCursedWin = Some 11
   \<and> map_score_DTZ (dtz_table 2) 0 50 WDLWin = None"
proof -
  have g: "TBTable_get (dtz_table fl) 0 0 = dtz_pairs fl [1, 4, 6, 6]" for fl
    by (simp add: TBTable_get_def dtz_table_def Sides_def)
  have fl: "flags (dtz_pairs x mi) = x" "map_idx (dtz_pairs x mi) = mi" for x mi
    by (simp_all add: dtz_pairs_def)
  have m: "tb_map (dtz_table x) = [2, 10, 20, 1, 7, 0, 0, 3, 9, 0, 0]" for x
    by (simp add: dtz_table_def)
  have b: "bit (2 :: 8 word) 1" "\<not> bit (2 :: 8 word) 4" "\<not> bit (2 :: 8 word) 2"
      "bit (6 :: 8 word) 1" "\<not> bit (6 :: 8 word) 4" "bit (6 :: 8 word) 2"
      "bit (18 :: 8 word) 1" "bit (18 :: 8 word) 4" "\<not> bit (18 :: 8 word) 3"
      "\<not> bit (0 :: 8 word) 1"
    by (simp_all add: bit_iff_odd)
  have 1: "map_score_DTZ (dtz_table 2) 0 1 WDLWin = Some 41"
    using map_score_DTZ_steps [of "dtz_table 2" 0 1 WDLWin]
    by (simp add: g fl m b read_u8_def Let_def)
  have 2: "map_score_DTZ (dtz_table 6) 0 1 WDLWin = Some 21"
    using map_score_DTZ_steps [of "dtz_table 6" 0 1 WDLWin]
    by (simp add: g fl m b read_u8_def Let_def)
  have 3: "map_score_DTZ (dtz_table 18) 0 0 WDLLoss = Some 19"
    using map_score_DTZ_steps [of "dtz_table 18" 0 0 WDLLoss]
    by (simp add: g fl m b read_u16_def Let_def)
  have 4: "map_score_DTZ (dtz_table 0) 0 5 WDLCursedWin = Some 11"
    using map_score_DTZ_steps [of "dtz_table 0" 0 5 WDLCursedWin]
    by (simp add: g fl m b Let_def)
  have 5: "map_score_DTZ (dtz_table 2) 0 50 WDLWin = None"
    using map_score_DTZ_steps [of "dtz_table 2" 0 50 WDLWin]
    by (simp add: g fl m b read_u8_def Let_def)
  from 1 2 3 4 5 show ?thesis by simp
qed

subsection \<open>The hash table\<close>


lemma homeBucket_lt: "0 < sz \<Longrightarrow> sz \<le> 2 ^ 32 \<Longrightarrow> homeBucket_of sz k < sz"
proof -
  assume sz: "0 < sz" "sz \<le> 2 ^ 32"
  have "(ucast k :: 32 word) AND word_of_nat (sz - 1) \<le> word_of_nat (sz - 1)"
    by (rule word_and_le1)
  then have "homeBucket_of sz k \<le> unat (word_of_nat (sz - 1) :: 32 word)"
    by (simp add: homeBucket_of_def word_le_nat_alt)
  also have "\<dots> \<le> sz - 1" by (simp add: unat_of_nat)
  finally show ?thesis using sz by simp
qed

lemma insert_loop_inv:
  "insert_loop sz t bucket k hb entry = Inr t' \<Longrightarrow> length t = sz + 1 \<Longrightarrow> homes_ok sz t
   \<Longrightarrow> homeBucket_of sz (e_key entry) \<le> bucket
   \<Longrightarrow> length t' = sz + 1 \<and> t' ! sz = t ! sz \<and> homes_ok sz t'"
proof (induction sz t bucket k hb entry arbitrary: t' rule: insert_loop.induct)
  case (1 sz t bucket k hb entry)
  from "1.prems"(1) have b: "bucket < sz"
    by (cases "bucket < sz") (simp_all add: insert_loop.simps [of sz t bucket k hb entry] Overflow_def)
  have upd: "homes_ok sz (t[bucket := entry])"
    using "1.prems"(2,3,4) b unfolding homes_ok_def by (auto simp: nth_list_update)
  have other: "homeBucket_of sz (e_key (t ! bucket)) \<le> bucket + 1"
    using "1.prems"(2,3) b unfolding homes_ok_def by (simp add: le_SucI)
  show ?case
  proof (cases "e_key (t ! bucket) = k \<or> Entry_get WDL (t ! bucket) = nullptr")
    case True
    then have "t' = t[bucket := entry]"
      using "1.prems"(1) b by (simp add: insert_loop.simps [of sz t bucket k hb entry] Overflow_def)
    then show ?thesis using upd b "1.prems"(2) by simp
  next
    case False
    show ?thesis
    proof (cases "homeBucket_of sz (e_key (t ! bucket)) > hb")
      case True
      then have r: "insert_loop sz (t[bucket := entry]) (bucket + 1) (e_key (t ! bucket))
                (homeBucket_of sz (e_key (t ! bucket))) (t ! bucket) = Inr t'"
        using "1.prems"(1) b False
        by (simp add: insert_loop.simps [of sz t bucket k hb entry] Overflow_def Let_def)
      have "length t' = sz + 1 \<and> t' ! sz = (t[bucket := entry]) ! sz \<and> homes_ok sz t'"
        using "1.IH"(1) [OF _ refl _ refl _ r] b False True upd other "1.prems"(2)
        by (simp add: Overflow_def)
      then show ?thesis using b by simp
    next
      case F2: False
      then have r: "insert_loop sz t (bucket + 1) k hb entry = Inr t'"
        using "1.prems"(1) b False
        by (simp add: insert_loop.simps [of sz t bucket k hb entry] Overflow_def Let_def)
      show ?thesis
        using "1.IH"(2) [OF _ refl _ refl _ r] b False F2 "1.prems"(2,3,4)
        by (simp add: Overflow_def)
    qed
  qed
qed

lemma TBTables_insert_inv:
  "TBTables_insert sz t k w d = Inr t' \<Longrightarrow> length t = sz + 1 \<Longrightarrow> homes_ok sz t
   \<Longrightarrow> length t' = sz + 1 \<and> t' ! sz = t ! sz \<and> homes_ok sz t'"
  using insert_loop_inv [of sz t "homeBucket_of sz k" k "homeBucket_of sz k"
      "\<lparr>e_key = k, e_wdl = w, e_dtz = d\<rparr>" t']
  by (simp add: TBTables_insert_def)

lemma inserts_inv:
  "inserts sz t xs = Inr t' \<Longrightarrow> length t = sz + 1 \<Longrightarrow> homes_ok sz t
   \<Longrightarrow> length t' = sz + 1 \<and> t' ! sz = t ! sz \<and> homes_ok sz t'"
proof (induction xs arbitrary: t)
  case Nil
  then show ?case by simp
next
  case (Cons x xs)
  obtain k w d where x: "x = (k, w, d)" by (cases x)
  from Cons.prems(1) obtain t1 where
    t1: "TBTables_insert sz t k w d = Inr t1" and rest: "inserts sz t1 xs = Inr t'"
    by (auto simp: x split: sum.splits)
  from TBTables_insert_inv [OF t1 Cons.prems(2,3)]
  have i1: "length t1 = sz + 1" "t1 ! sz = t ! sz" "homes_ok sz t1" by simp_all
  from Cons.IH [OF rest i1(1,3)] i1(2) show ?case by simp
qed

lemma homeBucket_of_0: "homeBucket_of sz 0 = 0"
  by (simp add: homeBucket_of_def)

lemma TBTables_clear_inv:
  "length (TBTables_clear sz) = sz + 1"
  "TBTables_clear sz ! sz = \<lparr>e_key = 0, e_wdl = nullptr, e_dtz = nullptr\<rparr>"
  "homes_ok sz (TBTables_clear sz)"
  by (simp_all add: TBTables_clear_def Overflow_def homes_ok_def homeBucket_of_0
      del: replicate.simps)

lemma get_probe_stops:
  "length t = sz + 1 \<Longrightarrow> Entry_get ty (t ! sz) = nullptr \<Longrightarrow> i \<le> sz
   \<Longrightarrow> \<exists>j. get_probe t ty i k = Some j \<and> i \<le> j \<and> j \<le> sz
        \<and> (e_key (t ! j) = k \<or> Entry_get ty (t ! j) = nullptr)"
proof (induction t ty i k rule: get_probe.induct)
  case (1 t ty i k)
  have lt: "i < length t" using "1.prems"(1,3) by simp
  show ?case
  proof (cases "e_key (t ! i) = k \<or> Entry_get ty (t ! i) = nullptr")
    case True
    then show ?thesis
      using lt "1.prems"(3) by (simp add: get_probe.simps [of t ty i k])
  next
    case False
    then have "i \<noteq> sz" using "1.prems"(2) by auto
    then have le: "i + 1 \<le> sz" using "1.prems"(3) by simp
    from "1.IH" [OF lt False "1.prems"(1,2) le]
    obtain j where "get_probe t ty (i + 1) k = Some j" "i + 1 \<le> j" "j \<le> sz"
      "e_key (t ! j) = k \<or> Entry_get ty (t ! j) = nullptr" by blast
    then show ?thesis
      using lt False by (simp add: get_probe.simps [of t ty i k])
  qed
qed

text \<open>
  C9: after any sequence of insertions into the cleared table that does not exit, the
  last (overflow) bucket still holds the zeroed entry, so every \<open>get\<close> probe, for either
  table type and any key, stops inside the array at a matching key or an empty slot, and
  every stored entry sits at a bucket at or after the home bucket of its key.
\<close>

theorem inserts_keep_last_bucket:
  assumes ins: "inserts sz (TBTables_clear sz) xs = Inr t" and sz: "0 < sz" "sz \<le> 2 ^ 32"
  shows "length t = sz + Overflow
     \<and> t ! sz = \<lparr>e_key = 0, e_wdl = nullptr, e_dtz = nullptr\<rparr>
     \<and> (\<forall>k ty. \<exists>j. get_probe t ty (homeBucket_of sz k) k = Some j \<and> homeBucket_of sz k \<le> j
            \<and> j \<le> sz \<and> (e_key (t ! j) = k \<or> Entry_get ty (t ! j) = nullptr))
     \<and> (\<forall>i \<le> sz. Entry_get WDL (t ! i) \<noteq> nullptr \<longrightarrow> homeBucket_of sz (e_key (t ! i)) \<le> i)"
proof -
  from inserts_inv [OF ins TBTables_clear_inv(1,3)]
  have len: "length t = sz + 1" and last: "t ! sz = TBTables_clear sz ! sz" and h: "homes_ok sz t"
    by simp_all
  have e: "t ! sz = \<lparr>e_key = 0, e_wdl = nullptr, e_dtz = nullptr\<rparr>"
    using last by (simp add: TBTables_clear_inv(2))
  have empty: "Entry_get ty (t ! sz) = nullptr" for ty
    by (simp add: e Entry_get_def)
  have probe: "\<exists>j. get_probe t ty (homeBucket_of sz k) k = Some j \<and> homeBucket_of sz k \<le> j
            \<and> j \<le> sz \<and> (e_key (t ! j) = k \<or> Entry_get ty (t ! j) = nullptr)" for k ty
    using get_probe_stops [OF len empty, of "homeBucket_of sz k" ty k] homeBucket_lt [OF sz, of k]
    by simp
  have homes: "\<forall>i \<le> sz. Entry_get WDL (t ! i) \<noteq> nullptr \<longrightarrow> homeBucket_of sz (e_key (t ! i)) \<le> i"
    using h len unfolding homes_ok_def by simp
  from len e probe homes show ?thesis by (simp add: Overflow_def)
qed

lemma three_inserts_table:
  "inserts 4 (TBTables_clear 4) three_inserts =
     Inr [\<lparr>e_key = 0, e_wdl = 0, e_dtz = 0\<rparr>, \<lparr>e_key = 5, e_wdl = 101, e_dtz = 201\<rparr>,
          \<lparr>e_key = 9, e_wdl = 102, e_dtz = 202\<rparr>, \<lparr>e_key = 2, e_wdl = 100, e_dtz = 200\<rparr>,
          \<lparr>e_key = 0, e_wdl = 0, e_dtz = 0\<rparr>]"
  by code_simp

theorem inserts_keep_last_bucket_witness:
  "(\<exists>t. inserts 4 (TBTables_clear 4) three_inserts = Inr t
      \<and> length t = 4 + Overflow
      \<and> t ! 4 = \<lparr>e_key = 0, e_wdl = nullptr, e_dtz = nullptr\<rparr>
      \<and> (\<exists>j. get_probe t DTZ (homeBucket_of 4 13) 13 = Some j \<and> homeBucket_of 4 13 \<le> j \<and> j \<le> 4
             \<and> (e_key (t ! j) = 13 \<or> Entry_get DTZ (t ! j) = nullptr))
      \<and> TBTables_get 4 t WDL 9 = Some 102 \<and> TBTables_get 4 t WDL 13 = Some nullptr
      \<and> Entry_get WDL (t ! 3) \<noteq> nullptr \<and> homeBucket_of 4 (e_key (t ! 3)) \<le> 3)
   \<and> inserts 4 (TBTables_clear 4) (three_inserts @ [(13, 103, 203)]) = Inl TB_hash_table_size_too_low"
proof -
  let ?t = "[\<lparr>e_key = 0, e_wdl = 0, e_dtz = 0\<rparr>, \<lparr>e_key = 5, e_wdl = 101, e_dtz = 201\<rparr>,
          \<lparr>e_key = 9, e_wdl = 102, e_dtz = 202\<rparr>, \<lparr>e_key = 2, e_wdl = 100, e_dtz = 200\<rparr>,
          \<lparr>e_key = 0, e_wdl = 0, e_dtz = 0\<rparr>]"
  have sz: "0 < (4 :: nat)" "(4 :: nat) \<le> 2 ^ 32" by simp_all
  note th = inserts_keep_last_bucket [OF three_inserts_table sz]
  from th have 1: "length ?t = 4 + Overflow"
    and 2: "?t ! 4 = \<lparr>e_key = 0, e_wdl = nullptr, e_dtz = nullptr\<rparr>"
    and 3: "\<forall>k ty. \<exists>j. get_probe ?t ty (homeBucket_of 4 k) k = Some j \<and> homeBucket_of 4 k \<le> j
            \<and> j \<le> 4 \<and> (e_key (?t ! j) = k \<or> Entry_get ty (?t ! j) = nullptr)"
    and 4: "\<forall>i \<le> 4. Entry_get WDL (?t ! i) \<noteq> nullptr \<longrightarrow> homeBucket_of 4 (e_key (?t ! i)) \<le> i"
    by blast+
  from 3 have p3: "\<exists>j. get_probe ?t DTZ (homeBucket_of 4 13) 13 = Some j \<and> homeBucket_of 4 13 \<le> j
      \<and> j \<le> 4 \<and> (e_key (?t ! j) = 13 \<or> Entry_get DTZ (?t ! j) = nullptr)"
    by blast
  have 5: "TBTables_get 4 ?t WDL 9 = Some 102" "TBTables_get 4 ?t WDL 13 = Some nullptr"
    "Entry_get WDL (?t ! 3) \<noteq> nullptr"
    by code_simp+
  have le: "(3 :: nat) \<le> 4" by simp
  have 6: "homeBucket_of 4 (e_key (?t ! 3)) \<le> 3" by (rule 4 [rule_format, OF le 5(3)])
  have 7: "inserts 4 (TBTables_clear 4) (three_inserts @ [(13, 103, 203)]) = Inl TB_hash_table_size_too_low"
    by code_simp
  from three_inserts_table 1 2 p3 5 6 7 show ?thesis by blast
qed

subsection \<open>The leading group of three unique pieces\<close>


lemma MapB1H1H7_bounds_all:
  "list_all (\<lambda>s. off_A1H8 s < 0 \<longrightarrow> 0 \<le> MapB1H1H7 ! s \<and> MapB1H1H7 ! s \<le> 27) [0..<64]"
  by code_simp

lemma MapA1D1D4_bounds_all:
  "list_all (\<lambda>s. off_A1H8 s < 0 \<and> file_of s \<le> FILE_D \<and> rank_of s \<le> RANK_4
       \<longrightarrow> 0 \<le> MapA1D1D4 ! s \<and> MapA1D1D4 ! s \<le> 5) [0..<64]"
  by code_simp

lemma MapB1H1H7_bounds:
  "s < 64 \<Longrightarrow> off_A1H8 s < 0 \<Longrightarrow> 0 \<le> MapB1H1H7 ! s \<and> MapB1H1H7 ! s \<le> 27"
  using MapB1H1H7_bounds_all by (simp add: list_all_iff)

lemma MapA1D1D4_bounds:
  "s < 64 \<Longrightarrow> off_A1H8 s < 0 \<Longrightarrow> file_of s \<le> FILE_D \<Longrightarrow> rank_of s \<le> RANK_4
   \<Longrightarrow> 0 \<le> MapA1D1D4 ! s \<and> MapA1D1D4 ! s \<le> 5"
  using MapA1D1D4_bounds_all by (simp add: list_all_iff)

lemma on_diag: "off_A1H8 s = 0 \<Longrightarrow> s = 9 * rank_of s"
  unfolding off_A1H8_def rank_of_def file_of_def by presburger

lemma rank_lt_8: "s < 64 \<Longrightarrow> rank_of s < 8"
  unfolding rank_of_def by simp

lemma adjust1_range:
  fixes s0 s1 :: nat
  assumes "s0 < 64" "s1 < 64" "s0 \<noteq> s1"
  shows "0 \<le> int s1 - (if s1 > s0 then 1 else 0) \<and> int s1 - (if s1 > s0 then 1 else 0) \<le> 62"
  using assms by auto

lemma adjust2_range:
  fixes s0 s1 s2 :: nat
  assumes "s0 < 64" "s1 < 64" "s2 < 64" "s0 \<noteq> s2" "s1 \<noteq> s2" "s0 \<noteq> s1"
  shows "0 \<le> int s2 - ((if s2 > s0 then 1 else 0) + (if s2 > s1 then 1 else 0))
       \<and> int s2 - ((if s2 > s0 then 1 else 0) + (if s2 > s1 then 1 else 0)) \<le> 61"
  using assms by auto

lemma diag_adjust1_range:
  fixes s0 s1 :: nat
  assumes "s0 < 64" "s1 < 64" "s0 \<noteq> s1" "off_A1H8 s0 = 0" "off_A1H8 s1 = 0"
  shows "0 \<le> int (rank_of s1) - (if s1 > s0 then 1 else 0)
       \<and> int (rank_of s1) - (if s1 > s0 then 1 else 0) \<le> 6"
proof -
  have d: "s0 = 9 * rank_of s0" "s1 = 9 * rank_of s1" using assms(4,5) by (simp_all add: on_diag)
  have r: "rank_of s0 < 8" "rank_of s1 < 8" using assms(1,2) by (simp_all add: rank_lt_8)
  have ne: "rank_of s0 \<noteq> rank_of s1" using d assms(3) by metis
  have iff: "s1 > s0 \<longleftrightarrow> rank_of s1 > rank_of s0" using d by linarith
  show ?thesis unfolding iff using r ne by auto
qed

lemma diag_adjust2_range:
  fixes s0 s1 s2 :: nat
  assumes "s0 < 64" "s1 < 64" "s2 < 64" "s0 \<noteq> s2" "s1 \<noteq> s2" "s0 \<noteq> s1"
    "off_A1H8 s0 = 0" "off_A1H8 s1 = 0" "off_A1H8 s2 = 0"
  shows "0 \<le> int (rank_of s2) - ((if s2 > s0 then 1 else 0) + (if s2 > s1 then 1 else 0))
       \<and> int (rank_of s2) - ((if s2 > s0 then 1 else 0) + (if s2 > s1 then 1 else 0)) \<le> 5"
proof -
  have d: "s0 = 9 * rank_of s0" "s1 = 9 * rank_of s1" "s2 = 9 * rank_of s2"
    using assms(7,8,9) by (simp_all add: on_diag)
  have r: "rank_of s0 < 8" "rank_of s1 < 8" "rank_of s2 < 8"
    using assms(1,2,3) by (simp_all add: rank_lt_8)
  have ne: "rank_of s0 \<noteq> rank_of s2" "rank_of s1 \<noteq> rank_of s2" "rank_of s0 \<noteq> rank_of s1"
    using d assms(4,5,6) by metis+
  have iff: "s2 > s0 \<longleftrightarrow> rank_of s2 > rank_of s0" "s2 > s1 \<longleftrightarrow> rank_of s2 > rank_of s1"
    using d by linarith+
  show ?thesis unfolding iff using r ne by auto
qed

lemma branch_values:
  "branch_lo 0 = 0" "branch_lo 1 = 23436" "branch_lo 2 = 30380" "branch_lo 3 = 31164"
  "branch_size 0 = 23436" "branch_size 1 = 6944" "branch_size 2 = 784" "branch_size 3 = 168"
  "branch_lo (Suc 0) = 23436" "branch_size (Suc 0) = 6944"
  by (simp_all add: branch_lo_def branch_size_def)

lemma encode_lead3_branch:
  assumes n: "tri_normalized s0 s1 s2"
  shows "branch_lo (lead3_branch s0 s1 s2) \<le> encode_lead3 s0 s1 s2
       \<and> encode_lead3 s0 s1 s2 < branch_lo (lead3_branch s0 s1 s2) + branch_size (lead3_branch s0 s1 s2)"
proof -
  from n have lt: "s0 < 64" "s1 < 64" "s2 < 64" and ne: "s0 \<noteq> s1" "s0 \<noteq> s2" "s1 \<noteq> s2"
    and q: "file_of s0 \<le> FILE_D" "rank_of s0 \<le> RANK_4"
    and dg: "off_A1H8 s0 < 0
         \<or> (off_A1H8 s0 = 0 \<and> (off_A1H8 s1 < 0 \<or> (off_A1H8 s1 = 0 \<and> off_A1H8 s2 \<le> 0)))"
    by (simp_all add: tri_normalized_def)
  define a1 :: int where "a1 = (if s1 > s0 then 1 else 0)"
  define a2 :: int where "a2 = (if s2 > s0 then 1 else 0) + (if s2 > s1 then 1 else 0)"
  have x1: "0 \<le> int s1 - a1 \<and> int s1 - a1 \<le> 62"
    unfolding a1_def using adjust1_range [OF lt(1,2) ne(1)] .
  have x2: "0 \<le> int s2 - a2 \<and> int s2 - a2 \<le> 61"
    unfolding a2_def using adjust2_range [OF lt ne(2,3,1)] .
  have r0: "0 \<le> int (rank_of s0) \<and> int (rank_of s0) \<le> 3" using q(2) by (simp add: RANK_4_def)
  have enc: "encode_lead3 s0 s1 s2 =
      (if off_A1H8 s0 \<noteq> 0 then
           (MapA1D1D4 ! s0 * 63 + (int s1 - a1)) * 62 + int s2 - a2
         else if off_A1H8 s1 \<noteq> 0 then
           (6 * 63 + int (rank_of s0) * 28 + MapB1H1H7 ! s1) * 62 + int s2 - a2
         else if off_A1H8 s2 \<noteq> 0 then
           6 * 63 * 62 + 4 * 28 * 62 + int (rank_of s0) * 7 * 28
             + (int (rank_of s1) - a1) * 28 + MapB1H1H7 ! s2
         else
           6 * 63 * 62 + 4 * 28 * 62 + 4 * 7 * 28 + int (rank_of s0) * 7 * 6
             + (int (rank_of s1) - a1) * 6 + (int (rank_of s2) - a2))"
    unfolding encode_lead3_def a1_def a2_def Let_def by (rule refl)
  consider (b0) "off_A1H8 s0 < 0"
    | (b1) "off_A1H8 s0 = 0" "off_A1H8 s1 < 0"
    | (b2) "off_A1H8 s0 = 0" "off_A1H8 s1 = 0" "off_A1H8 s2 < 0"
    | (b3) "off_A1H8 s0 = 0" "off_A1H8 s1 = 0" "off_A1H8 s2 = 0"
    using dg by linarith
  then show ?thesis
  proof cases
    case b0
    have m: "0 \<le> MapA1D1D4 ! s0 \<and> MapA1D1D4 ! s0 \<le> 5"
      using MapA1D1D4_bounds [OF lt(1) b0 q] .
    have br: "lead3_branch s0 s1 s2 = 0" using b0 by (simp add: lead3_branch_def)
    have e: "encode_lead3 s0 s1 s2 = (MapA1D1D4 ! s0 * 63 + (int s1 - a1)) * 62 + int s2 - a2"
      using b0 by (simp add: enc)
    show ?thesis unfolding br e branch_values using m x1 x2 by (simp add: algebra_simps)
  next
    case b1
    have m: "0 \<le> MapB1H1H7 ! s1 \<and> MapB1H1H7 ! s1 \<le> 27"
      using MapB1H1H7_bounds [OF lt(2) b1(2)] .
    have br: "lead3_branch s0 s1 s2 = 1" using b1 by (simp add: lead3_branch_def)
    have e: "encode_lead3 s0 s1 s2 =
        (6 * 63 + int (rank_of s0) * 28 + MapB1H1H7 ! s1) * 62 + int s2 - a2"
      using b1 by (simp add: enc)
    show ?thesis unfolding br e branch_values using m r0 x2 by (simp add: algebra_simps)
  next
    case b2
    have m: "0 \<le> MapB1H1H7 ! s2 \<and> MapB1H1H7 ! s2 \<le> 27"
      using MapB1H1H7_bounds [OF lt(3) b2(3)] .
    have y1: "0 \<le> int (rank_of s1) - a1 \<and> int (rank_of s1) - a1 \<le> 6"
      unfolding a1_def using diag_adjust1_range [OF lt(1,2) ne(1) b2(1,2)] .
    have br: "lead3_branch s0 s1 s2 = 2" using b2 by (simp add: lead3_branch_def)
    have e: "encode_lead3 s0 s1 s2 = 6 * 63 * 62 + 4 * 28 * 62 + int (rank_of s0) * 7 * 28
             + (int (rank_of s1) - a1) * 28 + MapB1H1H7 ! s2"
      using b2 by (simp add: enc)
    show ?thesis unfolding br e branch_values using m r0 y1 by (simp add: algebra_simps)
  next
    case b3
    have y1: "0 \<le> int (rank_of s1) - a1 \<and> int (rank_of s1) - a1 \<le> 6"
      unfolding a1_def using diag_adjust1_range [OF lt(1,2) ne(1) b3(1,2)] .
    have y2: "0 \<le> int (rank_of s2) - a2 \<and> int (rank_of s2) - a2 \<le> 5"
      unfolding a2_def using diag_adjust2_range [OF lt ne(2,3,1) b3] .
    have br: "lead3_branch s0 s1 s2 = 3" using b3 by (simp add: lead3_branch_def)
    have e: "encode_lead3 s0 s1 s2 = 6 * 63 * 62 + 4 * 28 * 62 + 4 * 7 * 28
             + int (rank_of s0) * 7 * 6 + (int (rank_of s1) - a1) * 6 + (int (rank_of s2) - a2)"
      using b3 by (simp add: enc)
    show ?thesis unfolding br e branch_values using r0 y1 y2 by (simp add: algebra_simps)
  qed
qed

text \<open>
  Every index of a range is produced. The adjustments by the squares that come before
  can be undone; an index below \<open>A * B * C\<close> has three digits; \<open>MapA1D1D4\<close> numbers
  the six squares below the diagonal of the a1-d4 quarter 0..5 and \<open>MapB1H1H7\<close> the 28
  squares below the diagonal 0..27; the square of rank and file \<open>r\<close> is \<open>9 * r\<close>.
\<close>

lemma unadjust1:
  fixes s0 N :: nat and x :: int
  assumes "s0 < N" "0 \<le> x" "x + 2 \<le> int N"
  shows "\<exists>s1<N. s1 \<noteq> s0 \<and> int s1 - (if s1 > s0 then 1 else 0) = x"
proof (cases "x < int s0")
  case True
  then show ?thesis using assms by (intro exI [of _ "nat x"]) auto
next
  case False
  then show ?thesis using assms by (intro exI [of _ "nat x + 1"]) auto
qed

lemma unadjust2:
  fixes s0 s1 N :: nat and y :: int
  assumes "s0 < N" "s1 < N" "s0 \<noteq> s1" "0 \<le> y" "y + 3 \<le> int N"
  shows "\<exists>s2<N. s2 \<noteq> s0 \<and> s2 \<noteq> s1
       \<and> int s2 - ((if s2 > s0 then 1 else 0) + (if s2 > s1 then 1 else 0)) = y"
proof -
  consider (a) "y < int (min s0 s1)"
    | (b) "int (min s0 s1) \<le> y" "y + 1 < int (max s0 s1)"
    | (c) "int (max s0 s1) \<le> y + 1"
    by linarith
  then show ?thesis
  proof cases
    case a
    then show ?thesis using assms by (intro exI [of _ "nat y"]) auto
  next
    case b
    then show ?thesis using assms by (intro exI [of _ "nat y + 1"]) auto
  next
    case c
    then show ?thesis using assms by (intro exI [of _ "nat y + 2"]) auto
  qed
qed

lemma digits3:
  fixes i A B C :: nat
  assumes "i < A * B * C"
  shows "\<exists>m x y. m < A \<and> x < B \<and> y < C \<and> i = (m * B + x) * C + y"
proof -
  have C: "0 < C" using assms by (cases C) simp_all
  have B: "0 < B" using assms by (cases B) simp_all
  have q: "i div C < A * B" using assms C by (simp add: less_mult_imp_div_less)
  have m: "i div C div B < A" using q B by (simp add: less_mult_imp_div_less)
  have x: "i div C mod B < B" using B by simp
  have y: "i mod C < C" using C by simp
  have "i = (i div C div B * B + i div C mod B) * C + i mod C" by simp
  with m x y show ?thesis by blast
qed

lemma MapB1H1H7_eq:
  "MapB1H1H7 = [0, 0, 1, 2, 3, 4, 5, 6, 0, 0, 7, 8, 9, 10, 11, 12, 0, 0, 0, 13, 14, 15, 16, 17,
      0, 0, 0, 0, 18, 19, 20, 21, 0, 0, 0, 0, 0, 22, 23, 24, 0, 0, 0, 0, 0, 0, 25, 26,
      0, 0, 0, 0, 0, 0, 0, 27, 0, 0, 0, 0, 0, 0, 0, 0]"
  by code_simp

lemma MapA1D1D4_eq:
  "MapA1D1D4 = [6, 0, 1, 2, 0, 0, 0, 0, 0, 7, 3, 4, 0, 0, 0, 0, 0, 0, 8, 5, 0, 0, 0, 0,
      0, 0, 0, 9, 0, 0, 0, 0, 0, 0, 0, 0, 0, 0, 0, 0, 0, 0, 0, 0, 0, 0, 0, 0,
      0, 0, 0, 0, 0, 0, 0, 0, 0, 0, 0, 0, 0, 0, 0, 0]"
  by code_simp

lemma MapA1D1D4_onto_all:
  "list_all (\<lambda>m. list_ex (\<lambda>s. off_A1H8 s < 0 \<and> file_of s \<le> FILE_D \<and> rank_of s \<le> RANK_4
       \<and> MapA1D1D4 ! s = int m) [0..<64]) [0..<6]"
  unfolding MapA1D1D4_eq by code_simp

lemma MapB1H1H7_onto_all:
  "list_all (\<lambda>m. list_ex (\<lambda>s. off_A1H8 s < 0 \<and> MapB1H1H7 ! s = int m) [0..<64]) [0..<28]"
  unfolding MapB1H1H7_eq by code_simp

lemma MapA1D1D4_onto:
  "m < 6 \<Longrightarrow> \<exists>s<64. off_A1H8 s < 0 \<and> file_of s \<le> FILE_D \<and> rank_of s \<le> RANK_4
       \<and> MapA1D1D4 ! s = int m"
  using MapA1D1D4_onto_all by (simp add: list_all_iff list_ex_iff Bex_def)

lemma MapB1H1H7_onto:
  "m < 28 \<Longrightarrow> \<exists>s<64. off_A1H8 s < 0 \<and> MapB1H1H7 ! s = int m"
  using MapB1H1H7_onto_all by (simp add: list_all_iff list_ex_iff Bex_def)

lemma diag_sq_all:
  "list_all (\<lambda>r. off_A1H8 (9 * r) = 0 \<and> rank_of (9 * r) = r \<and> file_of (9 * r) = r) [0..<8]"
  by code_simp

lemma diag_sq:
  "r < 8 \<Longrightarrow> off_A1H8 (9 * r) = 0 \<and> rank_of (9 * r) = r \<and> file_of (9 * r) = r"
  using diag_sq_all by (simp add: list_all_iff)

lemma encode_lead3_alt:
  assumes "a1 = (if s1 > s0 then 1 else 0)"
    "a2 = (if s2 > s0 then 1 else 0) + (if s2 > s1 then 1 else 0)"
  shows "encode_lead3 s0 s1 s2 =
      (if off_A1H8 s0 \<noteq> 0 then
           (MapA1D1D4 ! s0 * 63 + (int s1 - a1)) * 62 + int s2 - a2
         else if off_A1H8 s1 \<noteq> 0 then
           (6 * 63 + int (rank_of s0) * 28 + MapB1H1H7 ! s1) * 62 + int s2 - a2
         else if off_A1H8 s2 \<noteq> 0 then
           6 * 63 * 62 + 4 * 28 * 62 + int (rank_of s0) * 7 * 28
             + (int (rank_of s1) - a1) * 28 + MapB1H1H7 ! s2
         else
           6 * 63 * 62 + 4 * 28 * 62 + 4 * 7 * 28 + int (rank_of s0) * 7 * 6
             + (int (rank_of s1) - a1) * 6 + (int (rank_of s2) - a2))"
  unfolding encode_lead3_def assms Let_def by (rule refl)

lemma branch0_onto:
  assumes "0 \<le> idx" "idx < 23436"
  shows "\<exists>s0 s1 s2. tri_normalized s0 s1 s2 \<and> lead3_branch s0 s1 s2 = 0
       \<and> encode_lead3 s0 s1 s2 = idx"
proof -
  have "nat idx < 6 * 63 * 62" using assms by simp
  from digits3 [OF this] obtain m x y
    where d: "m < 6" "x < 63" "y < 62" "nat idx = (m * 63 + x) * 62 + y" by blast
  have "idx = int (nat idx)" using assms(1) by simp
  then have idx: "idx = (int m * 63 + int x) * 62 + int y" unfolding d(4) by simp
  from MapA1D1D4_onto [OF d(1)] obtain s0
    where s0: "s0 < 64" "off_A1H8 s0 < 0" "file_of s0 \<le> FILE_D" "rank_of s0 \<le> RANK_4"
      "MapA1D1D4 ! s0 = int m" by blast
  have "\<exists>s1<64. s1 \<noteq> s0 \<and> int s1 - (if s1 > s0 then 1 else 0) = int x"
    using s0(1) d(2) by (intro unadjust1) simp_all
  then obtain s1 where s1: "s1 < 64" "s1 \<noteq> s0" "int s1 - (if s1 > s0 then 1 else 0) = int x"
    by blast
  have "\<exists>s2<64. s2 \<noteq> s0 \<and> s2 \<noteq> s1
       \<and> int s2 - ((if s2 > s0 then 1 else 0) + (if s2 > s1 then 1 else 0)) = int y"
    using s0(1) s1(1,2) d(3) by (intro unadjust2) simp_all
  then obtain s2 where s2: "s2 < 64" "s2 \<noteq> s0" "s2 \<noteq> s1"
    "int s2 - ((if s2 > s0 then 1 else 0) + (if s2 > s1 then 1 else 0)) = int y" by blast
  define a1 :: int where "a1 = (if s1 > s0 then 1 else 0)"
  define a2 :: int where "a2 = (if s2 > s0 then 1 else 0) + (if s2 > s1 then 1 else 0)"
  have e1: "int s1 - a1 = int x" unfolding a1_def by (rule s1(3))
  have e2: "int s2 - a2 = int y" unfolding a2_def by (rule s2(4))
  have n: "tri_normalized s0 s1 s2" using s0 s1 s2 by (simp add: tri_normalized_def)
  have b: "lead3_branch s0 s1 s2 = 0" using s0(2) by (simp add: lead3_branch_def)
  have "encode_lead3 s0 s1 s2 = (MapA1D1D4 ! s0 * 63 + (int s1 - a1)) * 62 + int s2 - a2"
    using s0(2) by (simp add: encode_lead3_alt [OF a1_def a2_def])
  also have "\<dots> = idx" unfolding s0(5) e1 idx using e2 by linarith
  finally show ?thesis using n b by blast
qed

lemma branch1_onto:
  assumes "23436 \<le> idx" "idx < 30380"
  shows "\<exists>s0 s1 s2. tri_normalized s0 s1 s2 \<and> lead3_branch s0 s1 s2 = 1
       \<and> encode_lead3 s0 s1 s2 = idx"
proof -
  have "nat (idx - 23436) < 4 * 28 * 62" using assms by simp
  from digits3 [OF this] obtain r m y
    where d: "r < 4" "m < 28" "y < 62" "nat (idx - 23436) = (r * 28 + m) * 62 + y" by blast
  have "idx = 23436 + int (nat (idx - 23436))" using assms(1) by simp
  then have idx: "idx = (6 * 63 + int r * 28 + int m) * 62 + int y"
    unfolding d(4) by (simp add: algebra_simps)
  define s0 where "s0 = 9 * r"
  have r8: "r < 8" using d(1) by simp
  have s0: "s0 < 64" "off_A1H8 s0 = 0" "rank_of s0 = r" "file_of s0 = r"
    using diag_sq [OF r8] d(1) unfolding s0_def by simp_all
  from MapB1H1H7_onto [OF d(2)] obtain s1
    where s1: "s1 < 64" "off_A1H8 s1 < 0" "MapB1H1H7 ! s1 = int m" by blast
  have ne: "s0 \<noteq> s1" using s0(2) s1(2) by auto
  have "\<exists>s2<64. s2 \<noteq> s0 \<and> s2 \<noteq> s1
       \<and> int s2 - ((if s2 > s0 then 1 else 0) + (if s2 > s1 then 1 else 0)) = int y"
    using s0(1) s1(1) ne d(3) by (intro unadjust2) simp_all
  then obtain s2 where s2: "s2 < 64" "s2 \<noteq> s0" "s2 \<noteq> s1"
    "int s2 - ((if s2 > s0 then 1 else 0) + (if s2 > s1 then 1 else 0)) = int y" by blast
  define a1 :: int where "a1 = (if s1 > s0 then 1 else 0)"
  define a2 :: int where "a2 = (if s2 > s0 then 1 else 0) + (if s2 > s1 then 1 else 0)"
  have e2: "int s2 - a2 = int y" unfolding a2_def by (rule s2(4))
  have n: "tri_normalized s0 s1 s2"
    using s0 s1 s2 ne d(1) by (simp add: tri_normalized_def FILE_D_def RANK_4_def)
  have b: "lead3_branch s0 s1 s2 = 1" using s0(2) s1(2) by (simp add: lead3_branch_def)
  have "encode_lead3 s0 s1 s2 =
      (6 * 63 + int (rank_of s0) * 28 + MapB1H1H7 ! s1) * 62 + int s2 - a2"
    using s0(2) s1(2) by (simp add: encode_lead3_alt [OF a1_def a2_def])
  also have "\<dots> = idx" unfolding s0(3) s1(3) idx using e2 by linarith
  finally show ?thesis using n b by blast
qed

lemma branch2_onto:
  assumes "30380 \<le> idx" "idx < 31164"
  shows "\<exists>s0 s1 s2. tri_normalized s0 s1 s2 \<and> lead3_branch s0 s1 s2 = 2
       \<and> encode_lead3 s0 s1 s2 = idx"
proof -
  have "nat (idx - 30380) < 4 * 7 * 28" using assms by simp
  from digits3 [OF this] obtain r x m
    where d: "r < 4" "x < 7" "m < 28" "nat (idx - 30380) = (r * 7 + x) * 28 + m" by blast
  have "idx = 30380 + int (nat (idx - 30380))" using assms(1) by simp
  then have idx: "idx = 6 * 63 * 62 + 4 * 28 * 62 + int r * 7 * 28 + int x * 28 + int m"
    unfolding d(4) by (simp add: algebra_simps)
  define s0 where "s0 = 9 * r"
  have r8: "r < 8" using d(1) by simp
  have s0: "s0 < 64" "off_A1H8 s0 = 0" "rank_of s0 = r" "file_of s0 = r"
    using diag_sq [OF r8] d(1) unfolding s0_def by simp_all
  have "\<exists>r1<8. r1 \<noteq> r \<and> int r1 - (if r1 > r then 1 else 0) = int x"
    using r8 d(2) by (intro unadjust1) simp_all
  then obtain r1 where r1: "r1 < 8" "r1 \<noteq> r" "int r1 - (if r1 > r then 1 else 0) = int x"
    by blast
  define s1 where "s1 = 9 * r1"
  have s1: "s1 < 64" "off_A1H8 s1 = 0" "rank_of s1 = r1"
    using diag_sq [OF r1(1)] r1(1) unfolding s1_def by simp_all
  have ne: "s0 \<noteq> s1" using r1(2) unfolding s0_def s1_def by simp
  have gt: "s1 > s0 \<longleftrightarrow> r1 > r" unfolding s0_def s1_def by simp
  from MapB1H1H7_onto [OF d(3)] obtain s2
    where s2: "s2 < 64" "off_A1H8 s2 < 0" "MapB1H1H7 ! s2 = int m" by blast
  have ne2: "s0 \<noteq> s2" "s1 \<noteq> s2" using s0(2) s1(2) s2(2) by auto
  define a1 :: int where "a1 = (if s1 > s0 then 1 else 0)"
  define a2 :: int where "a2 = (if s2 > s0 then 1 else 0) + (if s2 > s1 then 1 else 0)"
  have e1: "int (rank_of s1) - a1 = int x" unfolding a1_def gt s1(3) by (rule r1(3))
  have n: "tri_normalized s0 s1 s2"
    using s0 s1 s2 ne ne2 d(1) by (simp add: tri_normalized_def FILE_D_def RANK_4_def)
  have b: "lead3_branch s0 s1 s2 = 2" using s0(2) s1(2) s2(2) by (simp add: lead3_branch_def)
  have "encode_lead3 s0 s1 s2 = 6 * 63 * 62 + 4 * 28 * 62 + int (rank_of s0) * 7 * 28
             + (int (rank_of s1) - a1) * 28 + MapB1H1H7 ! s2"
    using s0(2) s1(2) s2(2) by (simp add: encode_lead3_alt [OF a1_def a2_def])
  also have "\<dots> = idx" unfolding s0(3) s2(3) e1 idx by simp
  finally show ?thesis using n b by blast
qed

lemma branch3_onto:
  assumes "31164 \<le> idx" "idx < 31332"
  shows "\<exists>s0 s1 s2. tri_normalized s0 s1 s2 \<and> lead3_branch s0 s1 s2 = 3
       \<and> encode_lead3 s0 s1 s2 = idx"
proof -
  have "nat (idx - 31164) < 4 * 7 * 6" using assms by simp
  from digits3 [OF this] obtain r x y
    where d: "r < 4" "x < 7" "y < 6" "nat (idx - 31164) = (r * 7 + x) * 6 + y" by blast
  have "idx = 31164 + int (nat (idx - 31164))" using assms(1) by simp
  then have idx: "idx = 6 * 63 * 62 + 4 * 28 * 62 + 4 * 7 * 28 + int r * 7 * 6 + int x * 6 + int y"
    unfolding d(4) by (simp add: algebra_simps)
  define s0 where "s0 = 9 * r"
  have r8: "r < 8" using d(1) by simp
  have s0: "s0 < 64" "off_A1H8 s0 = 0" "rank_of s0 = r" "file_of s0 = r"
    using diag_sq [OF r8] d(1) unfolding s0_def by simp_all
  have "\<exists>r1<8. r1 \<noteq> r \<and> int r1 - (if r1 > r then 1 else 0) = int x"
    using r8 d(2) by (intro unadjust1) simp_all
  then obtain r1 where r1: "r1 < 8" "r1 \<noteq> r" "int r1 - (if r1 > r then 1 else 0) = int x"
    by blast
  define s1 where "s1 = 9 * r1"
  have s1: "s1 < 64" "off_A1H8 s1 = 0" "rank_of s1 = r1"
    using diag_sq [OF r1(1)] r1(1) unfolding s1_def by simp_all
  have ne: "s0 \<noteq> s1" using r1(2) unfolding s0_def s1_def by simp
  have gt: "s1 > s0 \<longleftrightarrow> r1 > r" unfolding s0_def s1_def by simp
  have "\<exists>r2<8. r2 \<noteq> r \<and> r2 \<noteq> r1
       \<and> int r2 - ((if r2 > r then 1 else 0) + (if r2 > r1 then 1 else 0)) = int y"
    using r8 r1(1,2) d(3) by (intro unadjust2) simp_all
  then obtain r2 where r2: "r2 < 8" "r2 \<noteq> r" "r2 \<noteq> r1"
    "int r2 - ((if r2 > r then 1 else 0) + (if r2 > r1 then 1 else 0)) = int y" by blast
  define s2 where "s2 = 9 * r2"
  have s2: "s2 < 64" "off_A1H8 s2 = 0" "rank_of s2 = r2"
    using diag_sq [OF r2(1)] r2(1) unfolding s2_def by simp_all
  have ne2: "s0 \<noteq> s2" "s1 \<noteq> s2" using r2(2,3) unfolding s0_def s1_def s2_def by simp_all
  have gt2: "s2 > s0 \<longleftrightarrow> r2 > r" "s2 > s1 \<longleftrightarrow> r2 > r1" unfolding s0_def s1_def s2_def by simp_all
  define a1 :: int where "a1 = (if s1 > s0 then 1 else 0)"
  define a2 :: int where "a2 = (if s2 > s0 then 1 else 0) + (if s2 > s1 then 1 else 0)"
  have e1: "int (rank_of s1) - a1 = int x" unfolding a1_def gt s1(3) by (rule r1(3))
  have e2: "int (rank_of s2) - a2 = int y" unfolding a2_def gt2 s2(3) by (rule r2(4))
  have n: "tri_normalized s0 s1 s2"
    using s0 s1 s2 ne ne2 d(1) by (simp add: tri_normalized_def FILE_D_def RANK_4_def)
  have b: "lead3_branch s0 s1 s2 = 3" using s0(2) s1(2) s2(2) by (simp add: lead3_branch_def)
  have "encode_lead3 s0 s1 s2 = 6 * 63 * 62 + 4 * 28 * 62 + 4 * 7 * 28
             + int (rank_of s0) * 7 * 6 + (int (rank_of s1) - a1) * 6 + (int (rank_of s2) - a2)"
    using s0(2) s1(2) s2(2) by (simp add: encode_lead3_alt [OF a1_def a2_def])
  also have "\<dots> = idx" unfolding s0(3) e1 e2 idx by simp
  finally show ?thesis using n b by blast
qed

lemma branch_indices_0: "branch_indices 0 = {0..<23436}"
proof (rule set_eqI, rule iffI)
  fix i assume "i \<in> branch_indices 0"
  then obtain s0 s1 s2 where t: "tri_normalized s0 s1 s2" "lead3_branch s0 s1 s2 = 0"
    "i = encode_lead3 s0 s1 s2" unfolding branch_indices_def by blast
  from encode_lead3_branch [OF t(1)] t(2,3) show "i \<in> {0..<23436}" by (simp add: branch_values)
next
  fix i :: int assume "i \<in> {0..<23436}"
  then have "0 \<le> i" "i < 23436" by simp_all
  from branch0_onto [OF this] show "i \<in> branch_indices 0" unfolding branch_indices_def by blast
qed

lemma branch_indices_1: "branch_indices 1 = {23436..<30380}"
proof (rule set_eqI, rule iffI)
  fix i assume "i \<in> branch_indices 1"
  then obtain s0 s1 s2 where t: "tri_normalized s0 s1 s2" "lead3_branch s0 s1 s2 = 1"
    "i = encode_lead3 s0 s1 s2" unfolding branch_indices_def by blast
  from encode_lead3_branch [OF t(1)] t(2,3) show "i \<in> {23436..<30380}" by (simp add: branch_values)
next
  fix i :: int assume "i \<in> {23436..<30380}"
  then have "23436 \<le> i" "i < 30380" by simp_all
  from branch1_onto [OF this] show "i \<in> branch_indices 1" unfolding branch_indices_def by blast
qed

lemma branch_indices_2: "branch_indices 2 = {30380..<31164}"
proof (rule set_eqI, rule iffI)
  fix i assume "i \<in> branch_indices 2"
  then obtain s0 s1 s2 where t: "tri_normalized s0 s1 s2" "lead3_branch s0 s1 s2 = 2"
    "i = encode_lead3 s0 s1 s2" unfolding branch_indices_def by blast
  from encode_lead3_branch [OF t(1)] t(2,3) show "i \<in> {30380..<31164}" by (simp add: branch_values)
next
  fix i :: int assume "i \<in> {30380..<31164}"
  then have "30380 \<le> i" "i < 31164" by simp_all
  from branch2_onto [OF this] show "i \<in> branch_indices 2" unfolding branch_indices_def by blast
qed

lemma branch_indices_3: "branch_indices 3 = {31164..<31332}"
proof (rule set_eqI, rule iffI)
  fix i assume "i \<in> branch_indices 3"
  then obtain s0 s1 s2 where t: "tri_normalized s0 s1 s2" "lead3_branch s0 s1 s2 = 3"
    "i = encode_lead3 s0 s1 s2" unfolding branch_indices_def by blast
  from encode_lead3_branch [OF t(1)] t(2,3) show "i \<in> {31164..<31332}" by (simp add: branch_values)
next
  fix i :: int assume "i \<in> {31164..<31332}"
  then have "31164 \<le> i" "i < 31332" by simp_all
  from branch3_onto [OF this] show "i \<in> branch_indices 3" unfolding branch_indices_def by blast
qed

lemma branch_indices_ge_4: "4 \<le> b \<Longrightarrow> branch_indices b = {}"
  unfolding branch_indices_def lead3_branch_def by auto

text \<open>The ranges follow one another, and two branches produce nothing in common.\<close>

lemma branches_ordered:
  "b < 4 \<Longrightarrow> b' < 4 \<Longrightarrow> b < b' \<Longrightarrow> branch_lo b + branch_size b \<le> branch_lo b'"
proof -
  assume a: "b < 4" "b' < 4" "b < b'"
  have c: "b = 0 \<or> b = 1 \<or> b = 2 \<or> b = 3" "b' = 0 \<or> b' = 1 \<or> b' = 2 \<or> b' = 3"
    using a(1,2) by arith+
  then show ?thesis using a(3) by (auto simp: branch_values)
qed

lemma branch_indices_disjoint:
  assumes "b \<noteq> b'"
  shows "branch_indices b \<inter> branch_indices b' = {}"
proof (rule ccontr)
  assume "branch_indices b \<inter> branch_indices b' \<noteq> {}"
  then obtain i where i: "i \<in> branch_indices b" "i \<in> branch_indices b'" by blast
  from i(1) obtain s0 s1 s2 where t: "tri_normalized s0 s1 s2" "lead3_branch s0 s1 s2 = b"
    "i = encode_lead3 s0 s1 s2" unfolding branch_indices_def by blast
  from i(2) obtain u0 u1 u2 where u: "tri_normalized u0 u1 u2" "lead3_branch u0 u1 u2 = b'"
    "i = encode_lead3 u0 u1 u2" unfolding branch_indices_def by blast
  have b4: "b < 4" "b' < 4"
    using t(2) [symmetric] u(2) [symmetric] by (simp_all add: lead3_branch_def)
  from encode_lead3_branch [OF t(1)] t(2,3)
  have r: "branch_lo b \<le> i" "i < branch_lo b + branch_size b" by simp_all
  from encode_lead3_branch [OF u(1)] u(2,3)
  have r': "branch_lo b' \<le> i" "i < branch_lo b' + branch_size b'" by simp_all
  from assms consider (lt) "b < b'" | (gt) "b' < b" by arith
  then show False
  proof cases
    case lt
    from branches_ordered [OF b4 lt] r r' show False by linarith
  next
    case gt
    from branches_ordered [OF b4(2,1) gt] r r' show False by linarith
  qed
qed

text \<open>The number of indices of each branch.\<close>

lemma branch_indices_card:
  "card (branch_indices 0) = 23436" "card (branch_indices 1) = 6944"
  "card (branch_indices 2) = 784" "card (branch_indices 3) = 168"
  unfolding branch_indices_0 branch_indices_1 branch_indices_2 branch_indices_3 by simp_all

text \<open>
  \<open>set_groups\<close> for a pawnless table with at least three unique pieces whose leading
  group comes first in the order (\<open>order[0] = 0\<close>; \<open>order[1]\<close> is \<open>0xF\<close> without pawns):
  the first loop makes at most \<open>pieceCount\<close> groups, and the second one stores 1 for the
  leading group and then 31332, the product after the leading group's factor.
\<close>

lemma group_lens_n:
  "group_lens pcs cnt i fl gl n = (gl', n') \<Longrightarrow> n' \<le> n + (cnt - i)"
proof (induction pcs cnt i fl gl n rule: group_lens.induct)
  case (1 pcs cnt i firstLen gl n)
  show ?case
  proof (cases "i < cnt")
    case False
    then show ?thesis using "1.prems" by (simp add: group_lens.simps [of pcs cnt i])
  next
    case True
    show ?thesis
    proof (cases "firstLen - 1 > 0 \<or> pcs ! i = pcs ! (i - 1)")
      case c: True
      from "1.prems" True c
      have "group_lens pcs cnt (i + 1) (firstLen - 1) (gl[n := gl ! n + 1]) n = (gl', n')"
        by (simp add: group_lens.simps [of pcs cnt i])
      from "1.IH"(1) [OF True c this] True show ?thesis by simp
    next
      case c: False
      from "1.prems" True c
      have "group_lens pcs cnt (i + 1) (firstLen - 1) (gl[n + 1 := 1]) (n + 1) = (gl', n')"
        by (simp add: group_lens.simps [of pcs cnt i])
      from "1.IH"(2) [OF True c this] True show ?thesis by simp
    qed
  qed
qed

lemma group_idxs_frame:
  assumes "1 \<le> nxt" "nxt \<le> n" "n \<le> 7" "j < nxt"
  shows "group_idxs g e gl (0, 15) f n nxt nxt fs idx gi ! j = gi ! j"
  using assms
proof (induction "n - nxt" arbitrary: nxt fs idx gi)
  case 0
  then have eq: "nxt = n" by simp
  have k: "n \<noteq> 0" "n \<noteq> 15" using 0 eq by simp_all
  have "group_idxs g e gl (0, 15) f n n n fs idx gi = gi[n := idx]"
    using k by (subst group_idxs.simps) simp
  then show ?case using 0 eq by simp
next
  case (Suc d)
  then have lt: "nxt < n" by simp
  have k: "nxt \<noteq> 0" "nxt \<noteq> 15" using Suc.prems by simp_all
  have "group_idxs g e gl (0, 15) f n nxt nxt fs idx gi =
      group_idxs g e gl (0, 15) f n (nxt + 1) (nxt + 1) (fs - gl ! nxt)
        (idx * word_of_int (Binomial g ! nat (gl ! nxt) ! nat fs)) (gi[nxt := idx])"
    using lt k by (subst group_idxs.simps) simp
  moreover have "group_idxs g e gl (0, 15) f n (nxt + 1) (nxt + 1) (fs - gl ! nxt)
        (idx * word_of_int (Binomial g ! nat (gl ! nxt) ! nat fs)) (gi[nxt := idx]) ! j
      = gi[nxt := idx] ! j"
    using Suc.hyps(2) Suc.prems lt by (intro Suc.hyps(1)) simp_all
  ultimately show ?case using Suc.prems by simp
qed

lemma set_groups_lead3:
  assumes "\<not> hasPawns e" "3 \<le> numUniquePieces e" "pieceCount e \<le> 7"
    "2 \<le> length (groupIdx d)"
  shows "groupIdx (set_groups g e d (0, 15) f) ! 0 = 1
       \<and> groupIdx (set_groups g e d (0, 15) f) ! 1 = 31332"
proof -
  obtain gl0 n0
    where gl0: "group_lens (pieces d) (nat (pieceCount e)) 1 3 ((groupLen d)[0 := 1]) 0 = (gl0, n0)"
    by (cases "group_lens (pieces d) (nat (pieceCount e)) 1 3 ((groupLen d)[0 := 1]) 0")
  from group_lens_n [OF gl0] assms(3) have n0: "n0 \<le> 6" by simp
  define n where "n = n0 + 1"
  define gl where "gl = gl0[n := 0]"
  have n: "1 \<le> n" "n \<le> 7" using n0 by (simp_all add: n_def)
  have sg: "groupIdx (set_groups g e d (0, 15) f) =
      group_idxs g e gl (0, 15) f n 0 1 (64 - gl ! 0) 1 (groupIdx d)"
    using assms(1,2) gl0 by (simp add: set_groups_def Let_def n_def gl_def)
  have lf: "lead_factor g e gl f = 31332" using assms(1,2) by (simp add: lead_factor_def)
  have st0: "group_idxs g e gl (0, 15) f n 0 1 (64 - gl ! 0) 1 (groupIdx d) =
      group_idxs g e gl (0, 15) f n 1 1 (64 - gl ! 0) 31332 ((groupIdx d)[0 := 1])"
    by (subst group_idxs.simps) (simp add: lf)
  let ?gi = "(groupIdx d)[0 := 1]"
  have len: "0 < length (groupIdx d)" "1 < length (groupIdx d)" using assms(4) by arith+
  have gi: "?gi ! 0 = 1" "1 < length ?gi" using len by simp_all
  show ?thesis
  proof (cases "1 < n")
    case False
    then have "group_idxs g e gl (0, 15) f n 1 1 (64 - gl ! 0) 31332 ?gi = ?gi[n := 31332]"
      by (subst group_idxs.simps) simp
    moreover have "n = 1" using False n by simp
    ultimately show ?thesis unfolding sg st0 using gi by simp
  next
    case True
    have st1: "group_idxs g e gl (0, 15) f n 1 1 (64 - gl ! 0) 31332 ?gi =
        group_idxs g e gl (0, 15) f n 2 2 (64 - gl ! 0 - gl ! 1)
          (31332 * word_of_int (Binomial g ! nat (gl ! 1) ! nat (64 - gl ! 0))) (?gi[1 := 31332])"
      using True by (subst group_idxs.simps) (simp add: numeral_2_eq_2)
    have n2: "2 \<le> n" using True by simp
    have f0: "group_idxs g e gl (0, 15) f n 2 2 fs idx gi' ! 0 = gi' ! 0" for fs idx gi'
      using n2 n(2) by (intro group_idxs_frame) simp_all
    have f1: "group_idxs g e gl (0, 15) f n 2 2 fs idx gi' ! 1 = gi' ! 1" for fs idx gi'
      using n2 n(2) by (intro group_idxs_frame) simp_all
    show ?thesis unfolding sg st0 st1 f0 f1 using gi by simp
  qed
qed

text \<open>
  C6: for a pawnless table with at least three unique pieces, the four-branch formula
  gives every normalised triple of squares an index in \<open>[0, 31332)\<close>, which is among
  the indices of the branch that computes it; the indices that the four branches produce
  are exactly the ranges \<open>[0, 23436)\<close>, \<open>[23436, 30380)\<close>, \<open>[30380, 31164)\<close> and
  \<open>[31164, 31332)\<close>, every index of a range being produced; the ranges of two
  branches are disjoint; their sizes sum to 31332; and 31332 is the factor of the leading
  group in \<open>set_groups\<close>, which stores 1 and then 31332 in \<open>groupIdx[]\<close> when the
  leading group comes first in the order.
\<close>

theorem leading_group_index_ranges:
  assumes "\<not> hasPawns e" "3 \<le> numUniquePieces e" "pieceCount e \<le> 7"
    "2 \<le> length (groupIdx d)"
  shows "(tri_normalized s0 s1 s2 \<longrightarrow>
            0 \<le> encode_lead3 s0 s1 s2 \<and> encode_lead3 s0 s1 s2 < 31332
            \<and> lead3_branch s0 s1 s2 < 4
            \<and> encode_lead3 s0 s1 s2 \<in> branch_indices (lead3_branch s0 s1 s2))
     \<and> branch_indices 0 = {0..<23436}
     \<and> branch_indices 1 = {23436..<30380}
     \<and> branch_indices 2 = {30380..<31164}
     \<and> branch_indices 3 = {31164..<31332}
     \<and> (\<forall>b b'. b \<noteq> b' \<longrightarrow> branch_indices b \<inter> branch_indices b' = {})
     \<and> card (branch_indices 0) + card (branch_indices 1) + card (branch_indices 2)
           + card (branch_indices 3) = 31332
     \<and> lead_factor g e gl f = 31332
     \<and> groupIdx (set_groups g e d (0, 15) f) ! 0 = 1
     \<and> groupIdx (set_groups g e d (0, 15) f) ! 1 = 31332"
proof -
  have 1: "tri_normalized s0 s1 s2 \<longrightarrow>
            0 \<le> encode_lead3 s0 s1 s2 \<and> encode_lead3 s0 s1 s2 < 31332
            \<and> lead3_branch s0 s1 s2 < 4
            \<and> encode_lead3 s0 s1 s2 \<in> branch_indices (lead3_branch s0 s1 s2)"
  proof
    assume n: "tri_normalized s0 s1 s2"
    let ?b = "lead3_branch s0 s1 s2"
    have b4: "?b < 4" by (simp add: lead3_branch_def)
    then have c: "?b = 0 \<or> ?b = 1 \<or> ?b = 2 \<or> ?b = 3" by arith
    note r = encode_lead3_branch [OF n]
    have lo: "0 \<le> branch_lo ?b" using c by (auto simp: branch_values)
    have hi: "branch_lo ?b + branch_size ?b \<le> 31332" using c by (auto simp: branch_values)
    have "0 \<le> encode_lead3 s0 s1 s2" "encode_lead3 s0 s1 s2 < 31332"
      using r lo hi by linarith+
    moreover have "encode_lead3 s0 s1 s2 \<in> branch_indices ?b"
      unfolding branch_indices_def using n by blast
    ultimately show "0 \<le> encode_lead3 s0 s1 s2 \<and> encode_lead3 s0 s1 s2 < 31332
            \<and> lead3_branch s0 s1 s2 < 4
            \<and> encode_lead3 s0 s1 s2 \<in> branch_indices (lead3_branch s0 s1 s2)"
      using b4 by simp
  qed
  have 2: "card (branch_indices 0) + card (branch_indices 1) + card (branch_indices 2)
           + card (branch_indices 3) = 31332"
    unfolding branch_indices_card by simp
  have 3: "lead_factor g e gl f = 31332" using assms(1,2) by (simp add: lead_factor_def)
  have dj: "\<forall>b b'. b \<noteq> b' \<longrightarrow> branch_indices b \<inter> branch_indices b' = {}"
    using branch_indices_disjoint by blast
  note sg = set_groups_lead3 [OF assms, of g f]
  show ?thesis
    by (intro conjI)
       (fact 1 branch_indices_0 branch_indices_1 branch_indices_2 branch_indices_3 dj 2 3
          sg [THEN conjunct1] sg [THEN conjunct2])+
qed

text \<open>\<open>set_groups\<close> on KRvK: one group of three, and 31332 as the table size.\<close>

lemma krk_set_groups:
  "groupLen (set_groups g krk_table krk_pairs (0, 15) 0) = [3, 0, 0, 0, 0, 0, 0, 0]
   \<and> groupIdx (set_groups g krk_table krk_pairs (0, 15) 0) = [1, 31332, 0, 0, 0, 0, 0, 0]"
  by (simp add: set_groups_def krk_table_def krk_pairs_def group_lens.simps group_idxs.simps
      lead_factor_def numeral_eq_Suc)

theorem leading_group_index_ranges_witness:
  "tri_normalized 0 63 23 \<and> lead3_branch 0 63 23 = 2 \<and> encode_lead3 0 63 23 = 30565
   \<and> encode_lead3 0 63 23 \<in> branch_indices 2
   \<and> branch_indices 2 = {30380..<31164}
   \<and> encode_lead3 1 0 2 = 0 \<and> encode_lead3 27 63 54 = 31331
   \<and> \<not> hasPawns krk_table \<and> 3 \<le> numUniquePieces krk_table \<and> pieceCount krk_table \<le> 7
   \<and> 2 \<le> length (groupIdx krk_pairs)
   \<and> lead_factor empty_tables krk_table [3, 0, 0, 0, 0, 0, 0, 0] 0 = 31332
   \<and> groupIdx (set_groups empty_tables krk_table krk_pairs (0, 15) 0) ! 0 = 1
   \<and> groupIdx (set_groups empty_tables krk_table krk_pairs (0, 15) 0) ! 1 = 31332"
proof -
  have n: "tri_normalized 0 63 23"
    by (simp add: tri_normalized_def off_A1H8_def rank_of_def file_of_def FILE_D_def RANK_4_def)
  have b: "lead3_branch 0 63 23 = 2"
    by (simp add: lead3_branch_def off_A1H8_def rank_of_def file_of_def)
  have v: "encode_lead3 0 63 23 = 30565" "encode_lead3 1 0 2 = 0" "encode_lead3 27 63 54 = 31331"
    by code_simp+
  have k: "\<not> hasPawns krk_table" "3 \<le> numUniquePieces krk_table" "pieceCount krk_table \<le> 7"
    "2 \<le> length (groupIdx krk_pairs)"
    by (simp_all add: krk_table_def krk_pairs_def)
  note th = leading_group_index_ranges [OF k, where ?s0.0 = 0 and ?s1.0 = 63 and ?s2.0 = 23
      and g = empty_tables and gl = "[3, 0, 0, 0, 0, 0, 0, 0]" and f = 0]
  from th [THEN conjunct1] n
  have "encode_lead3 0 63 23 \<in> branch_indices (lead3_branch 0 63 23)" by blast
  then have m: "encode_lead3 0 63 23 \<in> branch_indices 2" unfolding b .
  from th have r: "branch_indices 2 = {30380..<31164}"
    and l: "lead_factor empty_tables krk_table [3, 0, 0, 0, 0, 0, 0, 0] 0 = 31332"
    and g0: "groupIdx (set_groups empty_tables krk_table krk_pairs (0, 15) 0) ! 0 = 1"
    and g1: "groupIdx (set_groups empty_tables krk_table krk_pairs (0, 15) 0) ! 1 = 31332"
    by blast+
  show ?thesis
    by (intro conjI) (fact n b v m r k l g0 g1)+
qed

subsection \<open>The normalisation of the encoder gives a normalised triple\<close>

text \<open>
  The file, rank and diagonal flips of \<open>do_probe_table\<close>, applied to three distinct
  squares as the leading group, give a triple that \<open>tri_normalized\<close> accepts.
\<close>

lemma flips_all:
  "list_all (\<lambda>s. flip_file s < 64 \<and> file_of (flip_file s) = 7 - file_of s
         \<and> rank_of (flip_file s) = rank_of s \<and> flip_file (flip_file s) = s
       \<and> flip_rank s < 64 \<and> file_of (flip_rank s) = file_of s
         \<and> rank_of (flip_rank s) = 7 - rank_of s \<and> flip_rank (flip_rank s) = s
       \<and> flip_diag s < 64 \<and> file_of (flip_diag s) = rank_of s
         \<and> rank_of (flip_diag s) = file_of s \<and> flip_diag (flip_diag s) = s
       \<and> (off_A1H8 s = 0 \<longrightarrow> flip_diag s = s)) [0..<64]"
  by code_simp

lemma flip_props:
  assumes "s < 64"
  shows "flip_file s < 64" "file_of (flip_file s) = 7 - file_of s"
    "rank_of (flip_file s) = rank_of s" "flip_file (flip_file s) = s"
    "flip_rank s < 64" "file_of (flip_rank s) = file_of s"
    "rank_of (flip_rank s) = 7 - rank_of s" "flip_rank (flip_rank s) = s"
    "flip_diag s < 64" "file_of (flip_diag s) = rank_of s"
    "rank_of (flip_diag s) = file_of s" "flip_diag (flip_diag s) = s"
    "off_A1H8 s = 0 \<Longrightarrow> flip_diag s = s"
  using flips_all assms by (simp_all add: list_all_iff)

lemma flip_inj:
  assumes "s < 64" "t < 64" "s \<noteq> t"
  shows "flip_file s \<noteq> flip_file t" "flip_rank s \<noteq> flip_rank t" "flip_diag s \<noteq> flip_diag t"
  using assms flip_props(4,8,12) [of s] flip_props(4,8,12) [of t] by metis+

lemma off_flip_diag: "s < 64 \<Longrightarrow> off_A1H8 (flip_diag s) = - off_A1H8 s"
  by (simp add: off_A1H8_def flip_props)

lemma file_rank_le7: "s < 64 \<Longrightarrow> rank_of s \<le> 7" "file_of s \<le> 7"
  by (simp_all add: rank_of_def file_of_def)

lemma flip_files_step:
  assumes "a < 64" "b < 64" "c < 64" "a \<noteq> b" "a \<noteq> c" "b \<noteq> c"
  shows "\<exists>a' b' c'. flip_files [a, b, c] = [a', b', c'] \<and> a' < 64 \<and> b' < 64 \<and> c' < 64
     \<and> a' \<noteq> b' \<and> a' \<noteq> c' \<and> b' \<noteq> c' \<and> file_of a' \<le> FILE_D"
proof (cases "file_of a > FILE_D")
  case True
  have "file_of (flip_file a) \<le> FILE_D"
    using True file_rank_le7(2) [of a] by (simp add: flip_props(2) [OF assms(1)] FILE_D_def)
  then show ?thesis
    using True assms flip_inj(1) by (simp add: flip_files_def flip_props)
next
  case False
  then show ?thesis using assms by (simp add: flip_files_def)
qed

lemma flip_ranks_step:
  assumes "a < 64" "b < 64" "c < 64" "a \<noteq> b" "a \<noteq> c" "b \<noteq> c" "file_of a \<le> FILE_D"
  shows "\<exists>a' b' c'. flip_ranks [a, b, c] = [a', b', c'] \<and> a' < 64 \<and> b' < 64 \<and> c' < 64
     \<and> a' \<noteq> b' \<and> a' \<noteq> c' \<and> b' \<noteq> c' \<and> file_of a' \<le> FILE_D \<and> rank_of a' \<le> RANK_4"
proof (cases "rank_of a > RANK_4")
  case True
  have "rank_of (flip_rank a) \<le> RANK_4"
    using True file_rank_le7(1) [OF assms(1)] by (simp add: flip_props(7) [OF assms(1)] RANK_4_def)
  then show ?thesis
    using True assms flip_inj(2) by (simp add: flip_ranks_def flip_props)
next
  case False
  then show ?thesis using assms by (simp add: flip_ranks_def)
qed

lemma flip_diags_step:
  assumes lt: "a < 64" "b < 64" "c < 64" and ne: "a \<noteq> b" "a \<noteq> c" "b \<noteq> c"
    and q: "file_of a \<le> FILE_D" "rank_of a \<le> RANK_4"
  shows "\<exists>a' b' c'. flip_diags 3 0 [a, b, c] = [a', b', c'] \<and> tri_normalized a' b' c'"
proof -
  have three: "(3 :: nat) = Suc (Suc (Suc 0))" by simp
  consider (pos) "off_A1H8 a > 0" | (neg) "off_A1H8 a < 0"
    | (zpos) "off_A1H8 a = 0" "off_A1H8 b > 0" | (zneg) "off_A1H8 a = 0" "off_A1H8 b < 0"
    | (zzpos) "off_A1H8 a = 0" "off_A1H8 b = 0" "off_A1H8 c > 0"
    | (zzle) "off_A1H8 a = 0" "off_A1H8 b = 0" "off_A1H8 c \<le> 0"
    by linarith
  then show ?thesis
  proof cases
    case pos
    have r: "flip_diags 3 0 [a, b, c] = [flip_diag a, flip_diag b, flip_diag c]"
      using pos unfolding three by simp
    have "tri_normalized (flip_diag a) (flip_diag b) (flip_diag c)"
      using pos lt ne q flip_inj(3)
      by (simp add: tri_normalized_def flip_props off_flip_diag FILE_D_def RANK_4_def)
    with r show ?thesis by simp
  next
    case neg
    have r: "flip_diags 3 0 [a, b, c] = [a, b, c]" using neg unfolding three by simp
    have "tri_normalized a b c" using neg lt ne q by (simp add: tri_normalized_def)
    with r show ?thesis by simp
  next
    case zpos
    have r: "flip_diags 3 0 [a, b, c] = [a, flip_diag b, flip_diag c]"
      using zpos unfolding three by simp
    have fa: "flip_diag a = a" using zpos(1) lt(1) by (simp add: flip_props)
    have "a \<noteq> flip_diag b" "a \<noteq> flip_diag c" "flip_diag b \<noteq> flip_diag c"
      using flip_inj(3) [OF lt(1,2) ne(1)] flip_inj(3) [OF lt(1,3) ne(2)]
        flip_inj(3) [OF lt(2,3) ne(3)] fa by simp_all
    then have "tri_normalized a (flip_diag b) (flip_diag c)"
      using zpos lt q by (simp add: tri_normalized_def flip_props off_flip_diag)
    with r show ?thesis by simp
  next
    case zneg
    have r: "flip_diags 3 0 [a, b, c] = [a, b, c]" using zneg unfolding three by simp
    have "tri_normalized a b c" using zneg lt ne q by (simp add: tri_normalized_def)
    with r show ?thesis by simp
  next
    case zzpos
    have r: "flip_diags 3 0 [a, b, c] = [a, b, flip_diag c]"
      using zzpos unfolding three by simp
    have fa: "flip_diag a = a" "flip_diag b = b" using zzpos(1,2) lt(1,2) by (simp_all add: flip_props)
    have "a \<noteq> flip_diag c" "b \<noteq> flip_diag c"
      using flip_inj(3) [OF lt(1,3) ne(2)] flip_inj(3) [OF lt(2,3) ne(3)] fa by simp_all
    then have "tri_normalized a b (flip_diag c)"
      using zzpos lt ne q by (simp add: tri_normalized_def flip_props off_flip_diag)
    with r show ?thesis by simp
  next
    case zzle
    have r: "flip_diags 3 0 [a, b, c] = [a, b, c]" using zzle unfolding three by auto
    have "tri_normalized a b c" using zzle lt ne q by (simp add: tri_normalized_def)
    with r show ?thesis by simp
  qed
qed

lemma normalize_pawnless_normalized:
  assumes "a < 64" "b < 64" "c < 64" "a \<noteq> b" "a \<noteq> c" "b \<noteq> c"
  shows "\<exists>a' b' c'. normalize_pawnless 3 [a, b, c] = [a', b', c'] \<and> tri_normalized a' b' c'"
proof -
  from flip_files_step [OF assms] obtain a1 b1 c1 where
    1: "flip_files [a, b, c] = [a1, b1, c1]" "a1 < 64" "b1 < 64" "c1 < 64"
       "a1 \<noteq> b1" "a1 \<noteq> c1" "b1 \<noteq> c1" "file_of a1 \<le> FILE_D" by blast
  from flip_ranks_step [OF 1(2-8)] obtain a2 b2 c2 where
    2: "flip_ranks [a1, b1, c1] = [a2, b2, c2]" "a2 < 64" "b2 < 64" "c2 < 64"
       "a2 \<noteq> b2" "a2 \<noteq> c2" "b2 \<noteq> c2" "file_of a2 \<le> FILE_D" "rank_of a2 \<le> RANK_4" by blast
  from flip_diags_step [OF 2(2-9)] show ?thesis
    by (simp add: normalize_pawnless_def 1(1) 2(1))
qed

lemma encode_lead3_after_normalize:
  assumes "a < 64" "b < 64" "c < 64" "a \<noteq> b" "a \<noteq> c" "b \<noteq> c"
  shows "\<exists>a' b' c'. normalize_pawnless 3 [a, b, c] = [a', b', c']
     \<and> 0 \<le> encode_lead3 a' b' c' \<and> encode_lead3 a' b' c' < 31332"
proof -
  from normalize_pawnless_normalized [OF assms] obtain a' b' c' where
    n: "normalize_pawnless 3 [a, b, c] = [a', b', c']" and t: "tri_normalized a' b' c'" by blast
  let ?b = "lead3_branch a' b' c'"
  have "?b < 4" by (simp add: lead3_branch_def)
  then have c: "?b = 0 \<or> ?b = 1 \<or> ?b = 2 \<or> ?b = 3" by arith
  have lo: "0 \<le> branch_lo ?b" using c by (auto simp: branch_values)
  have hi: "branch_lo ?b + branch_size ?b \<le> 31332" using c by (auto simp: branch_values)
  from encode_lead3_branch [OF t] lo hi
  have "0 \<le> encode_lead3 a' b' c' \<and> encode_lead3 a' b' c' < 31332" by linarith
  with n show ?thesis by blast
qed

subsection \<open>set_groups: the factor of a two-unique-piece leading group\<close>


lemma lead_factor_two_unique:
  "\<not> hasPawns e \<Longrightarrow> numUniquePieces e = 2
   \<Longrightarrow> lead_factor g e gl f = (if variant e = CHESS_VARIANT then 462 else 518)"
  by (simp add: lead_factor_def)

text \<open>
  C7: for a pawnless table with exactly two unique pieces, \<open>set_groups\<close> multiplies in
  462 for standard chess, and 518 exactly for the connected-kings variants. The code
  multiplies in 518 for every variant other than standard chess: for the two-kings
  variant the factor is 518, while \<open>connectedKings\<close> of the encoder is false there
  (unless \<open>main_variant\<close> sent it to antichess) and the encoder indexes with \<open>MapKK\<close>.
\<close>

theorem set_groups_twokings_518:
  "lead_factor g twokings_table gl f = 518
   \<and> lead_factor g (twokings_table\<lparr>variant := CHESS_VARIANT\<rparr>) gl f = 462
   \<and> connectedKings mv twokings_table = (mv TWOKINGS_VARIANT = ANTI_VARIANT)
   \<and> groupLen (set_groups g twokings_table twokings_pairs (0, 15) 0) = [2, 2, 0, 0, 0, 0, 0, 0]
   \<and> take 2 (groupIdx (set_groups g twokings_table twokings_pairs (0, 15) 0)) = [1, 518]"
  by (simp add: set_groups_def twokings_table_def twokings_pairs_def group_lens.simps
      group_idxs.simps lead_factor_def connectedKings_def numeral_eq_Suc)


subsection \<open>The probe driver\<close>

lemma search_loop_Inl:
  "search_loop czm ms b c st = Inl (v, s) \<Longrightarrow> s = FAIL \<Longrightarrow> v = WDLDraw"
proof (induction ms arbitrary: b c st)
  case Nil
  then show ?case by simp
next
  case (Cons m ms)
  obtain cp pw a where m: "m = TBMove cp pw a" by (cases m)
  from Cons.prems Cons.IH show ?case
    unfolding m by (auto simp: Let_def split: if_splits prod.splits)
qed

lemma captures_loop_Inl:
  "captures_loop ms al be st = Inl (v, s) \<Longrightarrow> v = WDLDraw"
proof (induction ms arbitrary: al be st)
  case Nil
  then show ?case by simp
next
  case (Cons m ms)
  obtain cp pw a where m: "m = TBMove cp pw a" by (cases m)
  from Cons.prems Cons.IH show ?case
    unfolding m by (auto simp: Let_def split: if_splits prod.splits)
qed

lemma captures_loop_Inr:
  "captures_loop ms al be st = Inr (a', s) \<Longrightarrow> st \<noteq> FAIL \<Longrightarrow> s \<noteq> FAIL"
proof (induction ms arbitrary: al be st)
  case Nil
  then show ?case by simp
next
  case (Cons m ms)
  obtain cp pw a where m: "m = TBMove cp pw a" by (cases m)
  from Cons.prems Cons.IH show ?case
    unfolding m by (auto simp: Let_def split: if_splits prod.splits)
qed

lemma sprobe_captures_FAIL:
  assumes f: "snd (sprobe_captures pos al be st) = FAIL"
  shows "fst (sprobe_captures pos al be st) = WDLDraw"
proof -
  obtain i ls cs where pos: "pos = Position i ls cs" by (cases pos)
  show ?thesis
  proof (cases "captures_loop cs al be OK")
    case (Inl r)
    obtain v s where r: "r = (v, s)" by (cases r)
    have "v = WDLDraw" using captures_loop_Inl [of cs al be OK v s] Inl r by simp
    then show ?thesis using Inl by (simp add: pos sprobe_captures.simps r)
  next
    case (Inr r)
    obtain a s where r: "r = (a, s)" by (cases r)
    have "s \<noteq> FAIL" using captures_loop_Inr [of cs al be OK a s] Inr r by simp
    then have "snd (sprobe_captures pos al be st) \<noteq> FAIL"
      using Inr by (simp add: pos sprobe_captures.simps r)
    with f show ?thesis by simp
  qed
qed

lemma threats_loop_Inl:
  "threats_loop ms al be tf st = Inl (v, s) \<Longrightarrow> s = FAIL \<Longrightarrow> v = WDLDraw"
proof (induction ms arbitrary: al be tf st)
  case Nil
  then show ?case by simp
next
  case (Cons m ms)
  obtain cp pw a where m: "m = TBMove cp pw a" by (cases m)
  from Cons.prems Cons.IH show ?case
    unfolding m by (auto simp: Let_def split: if_splits prod.splits)
qed

lemma probe_table_WDL_FAIL:
  "snd (probe_table_WDL pos st) = FAIL \<Longrightarrow> st \<noteq> FAIL \<Longrightarrow> fst (probe_table_WDL pos st) = WDLDraw"
  by (auto simp: probe_table_WDL_def split: if_splits option.splits)

lemma probe_table_DTZ_FAIL:
  "snd (probe_table_DTZ pos st wdl) = FAIL \<Longrightarrow> st \<noteq> FAIL \<Longrightarrow> fst (probe_table_DTZ pos st wdl) = 0"
  by (auto simp: probe_table_DTZ_def split: if_splits dtz_lookup.splits)


lemma sprobe_ab_FAIL:
  assumes f: "snd (sprobe_ab t pos al be st) = FAIL"
  shows "fst (sprobe_ab t pos al be st) = WDLDraw"
proof -
  obtain i ls cs where pos: "pos = Position i ls cs" by (cases pos)
  let ?X = "(if count_them i > 1
            then (case sprobe_captures (Position i ls cs) al be st of
                    (v, st1) \<Rightarrow> if st1 = ZEROING_BEST_MOVE \<or> st1 = FAIL then Inl (v, st1) else Inr st1)
            else if length cs \<noteq> 0 then Inl (WDLLoss, ZEROING_BEST_MOVE) else Inr st)"
  let ?Y = "\<lambda>st1. (if t \<or> count_all i \<ge> 6 then threats_loop ls al be False st1
                else Inr (al, False, st1))"
  let ?Z = "\<lambda>alpha1 threatFound. (case probe_table_WDL (Position i ls cs) OK of
                (v, st3) \<Rightarrow>
                  if st3 = FAIL then (WDLDraw, st3)
                  else if wdl_int v > wdl_int alpha1 then (v, st3)
                  else (alpha1, if threatFound then THREAT else st3))"
  have eq: "sprobe_ab t pos al be st =
      (case ?X of Inl r \<Rightarrow> r
       | Inr st1 \<Rightarrow> (case ?Y st1 of Inl r \<Rightarrow> r | Inr (alpha1, threatFound, st2) \<Rightarrow> ?Z alpha1 threatFound))"
    unfolding pos sprobe_ab.simps by (rule refl)
  have z: "snd (?Z a1 tf) = FAIL \<Longrightarrow> fst (?Z a1 tf) = WDLDraw" for a1 tf
    by (cases "probe_table_WDL (Position i ls cs) OK") (auto split: if_splits)
  show ?thesis
  proof (cases ?X)
    case (Inl r)
    then have r: "sprobe_ab t pos al be st = r" unfolding eq by simp
    obtain v s where vs: "r = (v, s)" by (cases r)
    from f r vs have s: "s = FAIL" by simp
    have "v = WDLDraw"
    proof (cases "count_them i > 1")
      case True
      then have "sprobe_captures (Position i ls cs) al be st = (v, s)"
        using Inl vs by (auto split: prod.splits if_splits)
      then show ?thesis using sprobe_captures_FAIL [of "Position i ls cs" al be st] s by simp
    next
      case False
      then show ?thesis using Inl vs s by (auto split: if_splits)
    qed
    then show ?thesis using r vs by simp
  next
    case (Inr st1)
    show ?thesis
    proof (cases "?Y st1")
      case (Inl r)
      then have r: "sprobe_ab t pos al be st = r" unfolding eq Inr by simp
      obtain v s where vs: "r = (v, s)" by (cases r)
      from f r vs have s: "s = FAIL" by simp
      have "threats_loop ls al be False st1 = Inl (v, s)"
        using Inl vs by (auto split: if_splits)
      then have "v = WDLDraw" using threats_loop_Inl s by blast
      then show ?thesis using r vs by simp
    next
      case (Inr q)
      obtain a1 tf st2 where q: "q = (a1, tf, st2)" by (cases q)
      have r: "sprobe_ab t pos al be st = ?Z a1 tf"
        by (simp only: eq \<open>?X = Inr st1\<close> Inr q sum.case prod.case)
      show ?thesis using z [where ?a1.0=a1 and tf=tf] f unfolding r by simp
    qed
  qed
qed

lemma search_FAIL:
  assumes f: "snd (search czm pos st) = FAIL"
  shows "fst (search czm pos st) = WDLDraw"
proof -
  obtain i ls cs where pos: "pos = Position i ls cs" by (cases pos)
  let ?F = "\<lambda>bestValue moveCount st1.
            (let totalCount = length ls;
                 noMoreMoves = (moveCount \<noteq> 0 \<and> moveCount = totalCount);
                 (val, st2) = (if noMoreMoves then (bestValue, st1)
                               else probe_table_WDL (Position i ls cs) st1)
             in if \<not> noMoreMoves \<and> st2 = FAIL then (WDLDraw, st2)
                else if wdl_int bestValue \<ge> wdl_int val
                  then (bestValue, if wdl_int bestValue > wdl_int WDLDraw \<or> noMoreMoves
                                   then ZEROING_BEST_MOVE else OK)
                else (val, OK))"
  have eq: "search czm pos st =
     (if is_anti i then sprobe_ab czm (Position i ls cs) WDLLoss WDLWin st
      else (case search_loop czm ls WDLLoss 0 st of
           Inl r \<Rightarrow> r
         | Inr (bestValue, moveCount, st1) \<Rightarrow> ?F bestValue moveCount st1))"
    unfolding pos search.simps by (rule refl)
  have F: "snd (?F b c st1) = FAIL \<Longrightarrow> fst (?F b c st1) = WDLDraw" for b c st1
    by (cases "probe_table_WDL (Position i ls cs) st1"; cases "c \<noteq> 0 \<and> c = length ls")
       (auto simp: Let_def split: if_splits)
  show ?thesis
  proof (cases "is_anti i")
    case True
    then have "search czm pos st = sprobe_ab czm (Position i ls cs) WDLLoss WDLWin st"
      by (simp only: eq if_True)
    then show ?thesis using f sprobe_ab_FAIL by simp
  next
    case False
    show ?thesis
    proof (cases "search_loop czm ls WDLLoss 0 st")
      case (Inl r)
      then have r: "search czm pos st = r" using False by (simp only: eq if_False sum.case)
      obtain v s where vs: "r = (v, s)" by (cases r)
      from f r vs have "s = FAIL" by simp
      then have "v = WDLDraw" using search_loop_Inl Inl vs by blast
      then show ?thesis using r vs by simp
    next
      case (Inr q)
      obtain b c st1 where q: "q = (b, c, st1)" by (cases q)
      have r: "search czm pos st = ?F b c st1"
        using False by (simp only: eq if_False Inr q sum.case prod.case)
      show ?thesis using F [where b=b and c=c and ?st1.0=st1] f unfolding r by simp
    qed
  qed
qed

lemma dtz_loop_Inl: "dtz_loop ms wdl m st = Inl (v, s) \<Longrightarrow> v = 0"
proof (induction ms arbitrary: m st)
  case Nil
  then show ?case by simp
next
  case (Cons mv ms)
  obtain cp pw a where mv: "mv = TBMove cp pw a" by (cases mv)
  from Cons.prems Cons.IH show ?case
    unfolding mv by (auto simp: Let_def split: if_splits prod.splits)
qed

lemma dtz_loop_Inr: "dtz_loop ms wdl m st = Inr (m', s) \<Longrightarrow> st \<noteq> FAIL \<Longrightarrow> s \<noteq> FAIL"
proof (induction ms arbitrary: m st)
  case Nil
  then show ?case by simp
next
  case (Cons mv ms)
  obtain cp pw a where mv: "mv = TBMove cp pw a" by (cases mv)
  from Cons.prems Cons.IH show ?case
    unfolding mv by (auto simp: Let_def split: if_splits prod.splits)
qed

lemma probe_dtz_eq:
  "probe_dtz pos =
     (case search True pos OK of
        (wdl, st) \<Rightarrow>
          if st = FAIL \<or> wdl = WDLDraw then (0, st)
          else if st = ZEROING_BEST_MOVE then (dtz_before_zeroing wdl, st)
          else if is_anti (info pos) \<and> only_pawns (info pos) then (dtz_before_zeroing wdl, st)
          else if is_anti (info pos) \<and> st = THREAT \<and> wdl_int wdl > wdl_int WDLDraw
            then (if wdl = WDLWin then 2 else 102, st)
          else
            (case probe_table_DTZ pos st wdl of
               (dtz, st1) \<Rightarrow>
                 if st1 = FAIL then (0, st1)
                 else if st1 \<noteq> CHANGE_STM
                   then ((dtz + 100 * (if wdl = WDLBlessedLoss \<or> wdl = WDLCursedWin then 1 else 0))
                           * sign_of (wdl_int wdl), st1)
                 else
                   (case dtz_loop (legal pos) wdl 0xFFFF st1 of
                      Inl r \<Rightarrow> r
                    | Inr (minDTZ, st2) \<Rightarrow> (if minDTZ = 0xFFFF then - 1 else minDTZ, st2))))"
  by (cases pos) (simp only: probe_dtz.simps position.sel)

lemma probe_dtz_draw:
  "search True pos OK = (wdl, st) \<Longrightarrow> st = FAIL \<or> wdl = WDLDraw \<Longrightarrow> probe_dtz pos = (0, st)"
  by (simp add: probe_dtz_eq)

lemma dtz_before_zeroing_Draw: "dtz_before_zeroing WDLDraw = 0"
  by (simp add: dtz_before_zeroing_def)

lemma probe_dtz_zeroing:
  "search True pos OK = (wdl, ZEROING_BEST_MOVE)
   \<Longrightarrow> probe_dtz pos = (dtz_before_zeroing wdl, ZEROING_BEST_MOVE)"
  by (cases "wdl = WDLDraw") (simp_all add: probe_dtz_eq dtz_before_zeroing_Draw)

lemma dtz_before_zeroing_values:
  "wdl \<noteq> WDLDraw \<Longrightarrow> dtz_before_zeroing wdl \<in> {1, 101, - 101, - 1}"
  by (cases wdl) (simp_all add: dtz_before_zeroing_def)

lemma search_no_moves:
  "\<not> is_anti (info pos) \<Longrightarrow> legal pos = []
   \<Longrightarrow> search czm pos st =
       (case probe_table_WDL pos st of
          (val, st2) \<Rightarrow> if st2 = FAIL then (WDLDraw, st2) else (val, OK))"
proof -
  assume a: "\<not> is_anti (info pos)" "legal pos = []"
  obtain i ls cs where pos: "pos = Position i ls cs" by (cases pos)
  obtain v st2 where pt: "probe_table_WDL pos st = (v, st2)" by (cases "probe_table_WDL pos st")
  have "wdl_int WDLLoss \<ge> wdl_int v \<Longrightarrow> v = WDLLoss" by (cases v) simp_all
  then show ?thesis
    using a pt unfolding pos by (auto simp: search.simps Let_def)
qed

lemma probe_dtz_mate:
  assumes "legal pos = []" "checkers (info pos)" "pos_variant (info pos) = CHESS_VARIANT"
    "\<not> is_anti (info pos)" "\<not> is_variant_end (info pos)" "count_all (info pos) \<noteq> 2"
    "wdl_entry (info pos) = Some WDLLoss"
    "dtz_entry (info pos) WDLLoss = DtzChangeStm \<or> dtz_entry (info pos) WDLLoss = DtzValue 1"
  shows "fst (probe_dtz pos) = - 1"
proof -
  have pt: "probe_table_WDL pos OK = (WDLLoss, OK)"
    using assms by (simp add: probe_table_WDL_def)
  have s: "search True pos OK = (WDLLoss, OK)"
    using assms(1,4) pt by (simp add: search_no_moves)
  from assms(8) show ?thesis
  proof
    assume "dtz_entry (info pos) WDLLoss = DtzChangeStm"
    then have "probe_table_DTZ pos OK WDLLoss = (0, CHANGE_STM)"
      using assms by (simp add: probe_table_DTZ_def)
    then show ?thesis using s assms(1,4) by (simp add: probe_dtz_eq)
  next
    assume "dtz_entry (info pos) WDLLoss = DtzValue 1"
    then have "probe_table_DTZ pos OK WDLLoss = (1, OK)"
      using assms by (simp add: probe_table_DTZ_def)
    then show ?thesis using s assms(1,4) by (simp add: probe_dtz_eq sign_of_def)
  qed
qed

lemma probe_dtz_FAIL:
  assumes f: "snd (probe_dtz pos) = FAIL"
  shows "fst (probe_dtz pos) = 0"
proof -
  obtain wdl st where s: "search True pos OK = (wdl, st)" by (cases "search True pos OK")
  show ?thesis
  proof (cases "st = FAIL \<or> wdl = WDLDraw")
    case True
    then show ?thesis using s by (simp add: probe_dtz_eq)
  next
    case False
    obtain d st1 where pt: "probe_table_DTZ pos st wdl = (d, st1)"
      by (cases "probe_table_DTZ pos st wdl")
    show ?thesis
    proof (cases "dtz_loop (legal pos) wdl 0xFFFF CHANGE_STM")
      case (Inl r)
      obtain v s' where r: "r = (v, s')" by (cases r)
      have "v = 0" using dtz_loop_Inl Inl r by blast
      then show ?thesis
        using f s False pt Inl r by (auto simp: probe_dtz_eq split: if_splits)
    next
      case (Inr r)
      obtain m s' where r: "r = (m, s')" by (cases r)
      have "dtz_loop (legal pos) wdl 0xFFFF CHANGE_STM = Inr (m, s')" using Inr r by simp
      then have "s' \<noteq> FAIL" by (rule dtz_loop_Inr) simp
      then show ?thesis
        using f s False pt Inr r by (auto simp: probe_dtz_eq split: if_splits)
    qed
  qed
qed

lemma kvk_search: "search False kvk_pos OK = (WDLDraw, OK)"
  by (simp add: kvk_pos_def kvk_leaf_def info0_def search.simps probe_table_WDL_def Let_def)

lemma rook_capture_search: "search True rook_capture_pos OK = (WDLDraw, ZEROING_BEST_MOVE)"
  by (simp add: rook_capture_pos_def info0_def search.simps kvk_search Let_def)

text \<open>
  The first two cases of \<open>probe_dtz\<close>, in the order of the code: a failed search or a
  draw gives 0; otherwise a search that sets \<open>ZEROING_BEST_MOVE\<close> gives
  \<open>dtz_before_zeroing(wdl)\<close>, one of 1, 101, -101, -1.
\<close>

lemma probe_dtz_sequential:
  assumes s: "search True pos OK = (wdl, st)"
  shows "(st = FAIL \<or> wdl = WDLDraw \<longrightarrow> fst (probe_dtz pos) = 0)
     \<and> (\<not> (st = FAIL \<or> wdl = WDLDraw) \<and> st = ZEROING_BEST_MOVE
          \<longrightarrow> fst (probe_dtz pos) = dtz_before_zeroing wdl
              \<and> dtz_before_zeroing wdl \<in> {1, 101, - 101, - 1})"
proof (intro conjI impI)
  assume "st = FAIL \<or> wdl = WDLDraw"
  then show "fst (probe_dtz pos) = 0" using probe_dtz_draw [OF s] by simp
next
  assume a: "\<not> (st = FAIL \<or> wdl = WDLDraw) \<and> st = ZEROING_BEST_MOVE"
  then show "fst (probe_dtz pos) = dtz_before_zeroing wdl"
    using probe_dtz_zeroing [of pos wdl] s by simp
  from a show "dtz_before_zeroing wdl \<in> {1, 101, - 101, - 1}"
    by (intro dtz_before_zeroing_values) simp
qed

text \<open>
  A capture that checkmates: the search gives a win with \<open>ZEROING_BEST_MOVE\<close> and
  \<open>probe_dtz\<close> gives 1. A checkmated side to move in chess, with the DTZ table stored
  for the other side to move: \<open>probe_dtz\<close> gives -1.
\<close>

lemma chess_mate_search: "search czm (chess_mate dtz) OK = (WDLLoss, OK)"
  by (simp add: search_no_moves chess_mate_def info0_def probe_table_WDL_def)

lemma capture_mate_search: "search True capture_mate_pos OK = (WDLWin, ZEROING_BEST_MOVE)"
  by (simp add: capture_mate_pos_def info0_def search.simps chess_mate_search Let_def)

lemma probe_dtz_chess_examples:
  "probe_dtz capture_mate_pos = (1, ZEROING_BEST_MOVE)
   \<and> probe_dtz rook_capture_pos = (0, ZEROING_BEST_MOVE)
   \<and> fst (probe_dtz (chess_mate DtzChangeStm)) = - 1"
proof -
  have 1: "probe_dtz capture_mate_pos = (1, ZEROING_BEST_MOVE)"
    using capture_mate_search by (simp add: probe_dtz_eq dtz_before_zeroing_def)
  have 2: "probe_dtz rook_capture_pos = (0, ZEROING_BEST_MOVE)"
    using rook_capture_search by (simp add: probe_dtz_eq)
  have 3: "fst (probe_dtz (chess_mate DtzChangeStm)) = - 1"
    by (rule probe_dtz_mate) (simp_all add: chess_mate_def info0_def)
  from 1 2 3 show ?thesis by simp
qed

text \<open>
  C1: for a position with a present tablebase, \<open>probe_dtz\<close> returns 0 when the
  zeroing-aware search reports a draw, \<open>dtz_before_zeroing(wdl)\<close> when the search sets
  \<open>ZEROING_BEST_MOVE\<close>, and -1 when the side to move is checkmated. For a checkmated
  position of the atomic variant, whose tables are present, the search gives a loss with
  \<open>OK\<close>, \<open>probe_table<DTZ>\<close> gives \<open>result_to_score<DTZ>\<close> of the mate value, -1,
  and \<open>probe_dtz\<close> multiplies it by the sign of the loss: it returns 1, not -1.
\<close>

theorem probe_dtz_variant_mate_is_not_minus_one:
  "legal atomic_mate = [] \<and> checkers (info atomic_mate)
   \<and> pos_variant (info atomic_mate) = ATOMIC_VARIANT
   \<and> wdl_entry (info atomic_mate) = Some WDLLoss
   \<and> search True atomic_mate OK = (WDLLoss, OK)
   \<and> probe_table_DTZ atomic_mate OK WDLLoss = (- 1, OK)
   \<and> fst (probe_dtz atomic_mate) = 1
   \<and> fst (probe_dtz atomic_mate) \<noteq> - 1"
proof -
  have a: "search True atomic_mate OK = (WDLLoss, OK)"
    by (simp add: search_no_moves atomic_mate_def info0_def probe_table_WDL_def
        result_to_score_WDL_def)
  have t: "probe_table_DTZ atomic_mate OK WDLLoss = (- 1, OK)"
    by (simp add: atomic_mate_def info0_def probe_table_DTZ_def result_to_score_DTZ_def)
  have b: "probe_dtz atomic_mate = (1, OK)"
    by (simp add: probe_dtz_eq a t sign_of_def) (simp add: atomic_mate_def info0_def)
  show ?thesis using a t b by (simp add: atomic_mate_def info0_def)
qed

text \<open>
  C10: whenever a probe ends with \<open>FAIL\<close>, \<open>probe_wdl\<close>, \<open>search\<close> and the antichess
  searches \<open>sprobe_ab\<close> and \<open>sprobe_captures\<close> return \<open>WDLDraw\<close>, \<open>probe_table\<close> returns
  its default value, and \<open>probe_dtz\<close> returns 0.
\<close>

theorem probe_failure_returns_draw:
  "(snd (probe_wdl pos) = FAIL \<longrightarrow> fst (probe_wdl pos) = WDLDraw)
   \<and> (snd (search czm pos st) = FAIL \<longrightarrow> fst (search czm pos st) = WDLDraw)
   \<and> (snd (sprobe_ab threats pos alpha beta st) = FAIL
        \<longrightarrow> fst (sprobe_ab threats pos alpha beta st) = WDLDraw)
   \<and> (snd (sprobe_captures pos alpha beta st) = FAIL
        \<longrightarrow> fst (sprobe_captures pos alpha beta st) = WDLDraw)
   \<and> (st \<noteq> FAIL \<and> snd (probe_table_WDL pos st) = FAIL \<longrightarrow> fst (probe_table_WDL pos st) = WDLDraw)
   \<and> (st \<noteq> FAIL \<and> snd (probe_table_DTZ pos st wdl) = FAIL \<longrightarrow> fst (probe_table_DTZ pos st wdl) = 0)
   \<and> (snd (probe_dtz pos) = FAIL \<longrightarrow> fst (probe_dtz pos) = 0)"
  using search_FAIL [of False pos OK] search_FAIL [of czm pos st]
    sprobe_ab_FAIL [of threats pos alpha beta st] sprobe_captures_FAIL [of pos alpha beta st]
    probe_table_WDL_FAIL [of pos st] probe_table_DTZ_FAIL [of pos st wdl] probe_dtz_FAIL [of pos]
  unfolding probe_wdl_def by blast

theorem probe_failure_returns_draw_witness:
  "probe_wdl missing_table_pos = (WDLDraw, FAIL)
   \<and> probe_dtz missing_table_pos = (0, FAIL)
   \<and> probe_wdl missing_dtz_pos = (WDLWin, OK)
   \<and> probe_dtz missing_dtz_pos = (0, FAIL)"
proof -
  have a: "search czm missing_table_pos OK = (WDLDraw, FAIL)" for czm
    by (simp add: search_no_moves missing_table_pos_def info0_def probe_table_WDL_def)
  have b: "search czm missing_dtz_pos OK = (WDLWin, OK)" for czm
    by (simp add: search_no_moves missing_dtz_pos_def info0_def probe_table_WDL_def)
  have c: "snd (probe_dtz missing_table_pos) = FAIL" by (simp add: probe_dtz_eq a)
  have d: "snd (probe_dtz missing_dtz_pos) = FAIL"
    by (simp add: probe_dtz_eq b) (simp add: missing_dtz_pos_def info0_def probe_table_DTZ_def)
  have e: "snd (probe_wdl missing_table_pos) = FAIL" by (simp add: probe_wdl_def a)
  note th = probe_failure_returns_draw [of missing_table_pos False OK False WDLLoss WDLWin WDLDraw]
  note th2 = probe_failure_returns_draw [of missing_dtz_pos False OK False WDLLoss WDLWin WDLDraw]
  from th e have 1: "fst (probe_wdl missing_table_pos) = WDLDraw" by blast
  from th c have 2: "fst (probe_dtz missing_table_pos) = 0" by blast
  from th2 d have 3: "fst (probe_dtz missing_dtz_pos) = 0" by blast
  from 1 2 3 c d e b show ?thesis by (simp add: probe_wdl_def prod_eq_iff)
qed

text \<open>
  C2: when neither probe fails, \<open>probe_dtz\<close> and \<open>probe_wdl\<close> have the same sign. For a
  checkmated position of a variant other than chess and antichess, \<open>probe_table<DTZ>\<close>
  returns \<open>result_to_score<DTZ>\<close> of the mate value, -1, and \<open>probe_dtz\<close> multiplies it by
  the sign of the loss: \<open>probe_wdl\<close> gives a loss and \<open>probe_dtz\<close> gives +1.
\<close>

theorem probe_dtz_variant_mate_positive:
  "legal atomic_mate = [] \<and> checkers (info atomic_mate)
   \<and> probe_wdl atomic_mate = (WDLLoss, OK)
   \<and> probe_dtz atomic_mate = (1, OK)
   \<and> sign_of (wdl_int (fst (probe_wdl atomic_mate))) = - 1
   \<and> sign_of (fst (probe_dtz atomic_mate)) = 1"
proof -
  have a: "search czm atomic_mate OK = (WDLLoss, OK)" for czm
    by (simp add: search_no_moves atomic_mate_def info0_def probe_table_WDL_def
        result_to_score_WDL_def)
  have b: "probe_dtz atomic_mate = (1, OK)"
    by (simp add: probe_dtz_eq a)
       (simp add: atomic_mate_def info0_def probe_table_DTZ_def result_to_score_DTZ_def sign_of_def)
  show ?thesis using a b by (simp add: probe_wdl_def sign_of_def atomic_mate_def info0_def)
qed

end
